theory Spec2Isabelle
  imports Main "HOL-Library.Multiset"
begin

section \<open>Identifiers, errors and the collaborators\<close>

text \<open>
  The artifact entries of \<^verbatim>\<open>swh/fuse/fs/artifact.py\<close>. The module leans on classes
  and objects that live elsewhere (the SWHID class, the entry base classes, the fuse
  object with its caches); they are modelled here as plain data and as functions that
  are parameters of every operation.
\<close>

datatype object_type = CONTENT | DIRECTORY | REVISION | RELEASE | SNAPSHOT

datatype SWHID = SWHID (object_type: object_type) (object_id: string)

text \<open>
  Modelled from the spec: the string form of an identifier (\<^verbatim>\<open>str(swhid)\<close>, class
  SWHID of swh.model, not among the sources): the scheme, the version, the kind tag and
  the digest, separated by colons.
\<close>

fun object_type_tag :: "object_type \<Rightarrow> string" where
  "object_type_tag CONTENT = ''cnt''"
| "object_type_tag DIRECTORY = ''dir''"
| "object_type_tag REVISION = ''rev''"
| "object_type_tag RELEASE = ''rel''"
| "object_type_tag SNAPSHOT = ''snp''"

definition str_swhid :: "SWHID \<Rightarrow> string" where
  "str_swhid s = ''swh:1:'' @ object_type_tag (object_type s) @ '':'' @ object_id s"

text \<open>
  Every raise of the module is a value. \<open>FetchError\<close> stands for whatever a
  collaborator (\<^verbatim>\<open>get_blob\<close>, \<^verbatim>\<open>get_metadata\<close>, \<^verbatim>\<open>get_history\<close>) raises.
\<close>

datatype error = FetchError | KeyError | TypeError | IndexError | AttributeError
  | ValueError string

text \<open>One item of a directory's metadata: \<^verbatim>\<open>entry["name"]\<close>, \<^verbatim>\<open>entry["target"]\<close>,
  \<^verbatim>\<open>entry["perms"]\<close> (and the byte length the directory API adds).\<close>

record dentry =
  name :: string
  target :: SWHID
  perms :: int
  length_hint :: nat

record date =
  year :: int
  month :: int
  day :: int

text \<open>The decoded metadata record, one shape per kind (section 6 of the spec).\<close>

datatype metadata =
    DirectoryMeta "dentry list"
  | RevisionMeta (meta_directory: SWHID) (meta_parents: "SWHID list") (meta_date: date)
  | ReleaseMeta (meta_target: SWHID)
  | SnapshotMeta "(string \<times> SWHID) list"

text \<open>
  Modelled from the spec: the mode constants. \<^verbatim>\<open>EntryMode\<close> (swh.fuse.fs.entry) and
  \<^verbatim>\<open>DentryPerms\<close> (swh.model.from_disk) are not among the sources; the values are the
  stat constants they are built from: \<^verbatim>\<open>S_IFDIR | 0o555\<close>, \<^verbatim>\<open>S_IFREG | 0o444\<close> and
  \<^verbatim>\<open>0o120000\<close>.
\<close>

definition RDONLY_DIR :: int where
  "RDONLY_DIR = 16749"

definition RDONLY_FILE :: int where
  "RDONLY_FILE = 33060"

definition DentryPerms_symlink :: int where
  "DentryPerms_symlink = 40960"

text \<open>
  The entries the module creates. \<^verbatim>\<open>create_child\<close> (swh.fuse.fs.entry, not among the
  sources) is taken as plain construction of the child; the parent link it records only
  serves \<^verbatim>\<open>get_relative_root_path\<close>, which is a parameter below.
\<close>

datatype entry =
    Content string int SWHID "dentry option"
  | Directory string int SWHID
  | FuseSymlinkEntry string string
  | Release string int SWHID
  | ReleaseType string int object_type
  | Snapshot string int SWHID
  | RevisionHistoryShardByDate string int SWHID string
  | StatusFile string int nat nat
  | RevisionHistoryShardByHash string int SWHID string
  | RevisionHistoryShardByPage string int SWHID

fun entry_name :: "entry \<Rightarrow> string" where
  "entry_name (Content n _ _ _) = n"
| "entry_name (Directory n _ _) = n"
| "entry_name (FuseSymlinkEntry n _) = n"
| "entry_name (Release n _ _) = n"
| "entry_name (ReleaseType n _ _) = n"
| "entry_name (Snapshot n _ _) = n"
| "entry_name (RevisionHistoryShardByDate n _ _ _) = n"
| "entry_name (StatusFile n _ _ _) = n"
| "entry_name (RevisionHistoryShardByHash n _ _ _) = n"
| "entry_name (RevisionHistoryShardByPage n _ _) = n"

text \<open>
  The fuse object and what hangs off it, as the module uses it: the three fetching
  collaborators (each may raise), the non-fetching probe of the metadata cache, the two
  sharding parameters of the configuration, and \<^verbatim>\<open>get_relative_root_path\<close> of a node.
\<close>

record fuse =
  get_blob :: "SWHID \<Rightarrow> error + string"
  get_metadata :: "SWHID \<Rightarrow> error + metadata"
  get_history :: "SWHID \<Rightarrow> error + SWHID list"
  cache_metadata_get :: "SWHID \<Rightarrow> metadata option"
  sharding_depth :: int
  sharding_length :: int
  get_relative_root_path :: "entry \<Rightarrow> string"

section \<open>Strings and paths\<close>

text \<open>\<^verbatim>\<open>s.count(c)\<close>, \<^verbatim>\<open>s.startswith(p)\<close>, \<^verbatim>\<open>s.split(c)\<close> and \<^verbatim>\<open>sep.join(xs)\<close>.\<close>

definition count_char :: "char \<Rightarrow> string \<Rightarrow> nat" where
  "count_char c s = length (filter (\<lambda>x. x = c) s)"

definition startswith :: "string \<Rightarrow> string \<Rightarrow> bool" where
  "startswith s p = (take (length p) s = p)"

fun split_char :: "char \<Rightarrow> string \<Rightarrow> string list" where
  "split_char c [] = [[]]"
| "split_char c (x # xs) =
     (if x = c then [] # split_char c xs
      else (case split_char c xs of [] \<Rightarrow> [[x]] | y # ys \<Rightarrow> (x # y) # ys))"

fun join :: "string \<Rightarrow> string list \<Rightarrow> string" where
  "join sep [] = []"
| "join sep [x] = x"
| "join sep (x # y # ys) = x @ sep @ join sep (y # ys)"

text \<open>
  \<^verbatim>\<open>str(Path(*parts))\<close> for relative parts (no part of the module's paths starts with a
  slash): the parts are cut at the slashes, empty and dot components are dropped, and
  the rest is joined by single slashes; the empty path prints as a dot.
\<close>

definition Path_str :: "string list \<Rightarrow> string" where
  "Path_str parts =
     (let comps = filter (\<lambda>c. c \<noteq> [] \<and> c \<noteq> ''.'') (concat (map (split_char CHR ''/'') parts))
      in if comps = [] then ''.'' else join ''/'' comps)"

text \<open>
  \<^verbatim>\<open>str(n)\<close> of a natural number, and the format specification \<^verbatim>\<open>{n:0wd}\<close> of an
  integer: the decimal digits, padded with zeros on the left up to the width, the sign
  (counted in the width) first.
\<close>

definition digit_char :: "nat \<Rightarrow> char" where
  "digit_char n = ''0123456789'' ! (n mod 10)"

fun str_nat :: "nat \<Rightarrow> string" where
  "str_nat n = (if n < 10 then [digit_char n] else str_nat (n div 10) @ [digit_char n])"

declare str_nat.simps [simp del]

definition format_0d :: "nat \<Rightarrow> int \<Rightarrow> string" where
  "format_0d width n =
     (if n < 0 then
        (let s = str_nat (nat (- n)) in CHR ''-'' # replicate (width - 1 - length s) CHR ''0'' @ s)
      else
        (let s = str_nat (nat n) in replicate (width - length s) CHR ''0'' @ s))"

text \<open>\<^verbatim>\<open>xs[i]\<close> for an index that is not negative.\<close>

definition py_index :: "'a list \<Rightarrow> nat \<Rightarrow> error + 'a" where
  "py_index xs i = (if i < length xs then Inr (xs ! i) else Inl IndexError)"

text \<open>
  \<^verbatim>\<open>urllib.parse.quote_plus(s)\<close> with its default arguments, on the bytes of the
  name: letters, digits and \<^verbatim>\<open>_.-~\<close> are kept, a space becomes a plus sign, and any
  other byte becomes a percent sign and its two upper-case hexadecimal digits.
\<close>

definition always_safe :: string where
  "always_safe = ''ABCDEFGHIJKLMNOPQRSTUVWXYZabcdefghijklmnopqrstuvwxyz0123456789_.-~''"

definition hex_digit :: "nat \<Rightarrow> char" where
  "hex_digit n = ''0123456789ABCDEF'' ! (n mod 16)"

definition quote_byte :: "char \<Rightarrow> string" where
  "quote_byte c =
     (if c \<in> set always_safe then [c]
      else if c = CHR '' '' then ''+''
      else [CHR ''%'', hex_digit (of_char c div 16), hex_digit (of_char c mod 16)])"

definition quote_plus :: "string \<Rightarrow> string" where
  "quote_plus s = concat (map quote_byte s)"

section \<open>Generators\<close>

text \<open>
  An asynchronous generator is observed as the children it yields, in order, and the
  exception that ends it, if any: children yielded before a raise have been handed out.
\<close>

type_synonym gen = "entry list \<times> error option"

fun for_each :: "('a \<Rightarrow> error + entry list) \<Rightarrow> 'a list \<Rightarrow> gen" where
  "for_each f [] = ([], None)"
| "for_each f (x # xs) =
     (case f x of
        Inl e \<Rightarrow> ([], Some e)
      | Inr ys \<Rightarrow> (case for_each f xs of (zs, r) \<Rightarrow> (ys @ zs, r)))"

section \<open>Directory\<close>

text \<open>The exception of the last branch; its message is not an f-string in the source.\<close>

definition Unknown_directory_entry_type :: error where
  "Unknown_directory_entry_type = ValueError ''Unknown directory entry type: {swhid.object_type}''"

text \<open>The body of the loop of \<^verbatim>\<open>Directory.compute_entries\<close>, for one item.\<close>

definition Directory_entry :: "fuse \<Rightarrow> entry \<Rightarrow> dentry \<Rightarrow> error + entry list" where
  "Directory_entry fs self e =
     (let nm = name e;
          swhid = target e;
          mode = (if object_type swhid = DIRECTORY then RDONLY_DIR else perms e)
      in if object_type swhid = CONTENT then
           Inr [Content nm mode swhid (Some e)]
         else if object_type swhid = DIRECTORY then
           Inr [Directory nm mode swhid]
         else if mode = DentryPerms_symlink then
           (case get_blob fs swhid of
              Inl err \<Rightarrow> Inl err
            | Inr data \<Rightarrow> Inr [FuseSymlinkEntry nm data])
         else if object_type swhid = REVISION then
           (case get_metadata fs swhid of
              Inl err \<Rightarrow> Inl err
            | Inr _ \<Rightarrow>
                Inr [FuseSymlinkEntry nm
                  (Path_str [get_relative_root_path fs self, ''archive/'' @ str_swhid swhid])])
         else Inl Unknown_directory_entry_type)"

definition Directory_compute_entries :: "fuse \<Rightarrow> entry \<Rightarrow> gen" where
  "Directory_compute_entries fs self =
     (case self of
        Directory _ _ swhid \<Rightarrow>
          (case get_metadata fs swhid of
             Inl err \<Rightarrow> ([], Some err)
           | Inr (DirectoryMeta entries) \<Rightarrow> for_each (Directory_entry fs self) entries
           | Inr _ \<Rightarrow> ([], Some TypeError))
      | _ \<Rightarrow> ([], Some AttributeError))"

section \<open>Release\<close>

text \<open>\<^verbatim>\<open>metadata["target"]\<close> and \<^verbatim>\<open>metadata["directory"]\<close>: a record of another kind has
  no such key (and a directory's metadata is a list).\<close>

definition metadata_target :: "metadata \<Rightarrow> error + SWHID" where
  "metadata_target md = (case md of ReleaseMeta t \<Rightarrow> Inr t | DirectoryMeta _ \<Rightarrow> Inl TypeError | _ \<Rightarrow> Inl KeyError)"

definition metadata_directory :: "metadata \<Rightarrow> error + SWHID" where
  "metadata_directory md = (case md of RevisionMeta d _ _ \<Rightarrow> Inr d | DirectoryMeta _ \<Rightarrow> Inl TypeError | _ \<Rightarrow> Inl KeyError)"

partial_function (option) find_root_directory :: "fuse \<Rightarrow> SWHID \<Rightarrow> (error + SWHID option) option" where
  "find_root_directory fs swhid =
     (if object_type swhid = RELEASE then
        (case get_metadata fs swhid of
           Inl err \<Rightarrow> Some (Inl err)
         | Inr md \<Rightarrow>
             (case metadata_target md of
                Inl err \<Rightarrow> Some (Inl err)
              | Inr t \<Rightarrow> find_root_directory fs t))
      else if object_type swhid = REVISION then
        (case get_metadata fs swhid of
           Inl err \<Rightarrow> Some (Inl err)
         | Inr md \<Rightarrow>
             (case metadata_directory md of
                Inl err \<Rightarrow> Some (Inl err)
              | Inr d \<Rightarrow> Some (Inr (Some d))))
      else if object_type swhid = DIRECTORY then Some (Inr (Some swhid))
      else Some (Inr None))"

text \<open>
  What the spec calls following the target references: a tree is reached from a tree
  itself, from a commit through its tree, and from a tag through its target.
  \<open>ends_in\<close> is the object at which a chain of tags ends.
\<close>

inductive reaches_tree :: "fuse \<Rightarrow> SWHID \<Rightarrow> SWHID \<Rightarrow> bool" for fs where
  tree: "object_type s = DIRECTORY \<Longrightarrow> reaches_tree fs s s"
| commit: "object_type s = REVISION \<Longrightarrow> get_metadata fs s = Inr (RevisionMeta d ps dt) \<Longrightarrow> reaches_tree fs s d"
| tag: "object_type s = RELEASE \<Longrightarrow> get_metadata fs s = Inr (ReleaseMeta t) \<Longrightarrow> reaches_tree fs t d
        \<Longrightarrow> reaches_tree fs s d"

code_pred reaches_tree .

inductive ends_in :: "fuse \<Rightarrow> SWHID \<Rightarrow> SWHID \<Rightarrow> bool" for fs where
  last: "object_type s \<noteq> RELEASE \<Longrightarrow> ends_in fs s s"
| tag: "object_type s = RELEASE \<Longrightarrow> get_metadata fs s = Inr (ReleaseMeta t) \<Longrightarrow> ends_in fs t b
        \<Longrightarrow> ends_in fs s b"

text \<open>\<^verbatim>\<open>Release.compute_entries\<close>: \<open>None\<close> when the resolution of the root never
  returns.\<close>

definition Release_compute_entries :: "fuse \<Rightarrow> entry \<Rightarrow> gen option" where
  "Release_compute_entries fs self =
     (case self of
        Release _ _ swhid \<Rightarrow>
          (case get_metadata fs swhid of
             Inl err \<Rightarrow> Some ([], Some err)
           | Inr md \<Rightarrow>
               (let root_path = get_relative_root_path fs self;
                    e1 = FuseSymlinkEntry ''meta.json''
                           (Path_str [root_path, ''meta/'' @ str_swhid swhid @ ''.json''])
                in case metadata_target md of
                     Inl err \<Rightarrow> Some ([e1], Some err)
                   | Inr tgt \<Rightarrow>
                       (let e2 = FuseSymlinkEntry ''target''
                                   (Path_str [root_path, ''archive/'' @ str_swhid tgt]);
                            e3 = ReleaseType ''target_type'' RDONLY_FILE (object_type tgt)
                        in case find_root_directory fs tgt of
                             None \<Rightarrow> None
                           | Some (Inl err) \<Rightarrow> Some ([e1, e2, e3], Some err)
                           | Some (Inr None) \<Rightarrow> Some ([e1, e2, e3], None)
                           | Some (Inr (Some target_dir)) \<Rightarrow>
                               Some ([e1, e2, e3,
                                      FuseSymlinkEntry ''root''
                                        (Path_str [root_path,
                                           ''archive/'' @ str_swhid target_dir])],
                                     None))))
      | _ \<Rightarrow> Some ([], Some AttributeError))"

section \<open>Snapshot\<close>

definition Snapshot_compute_entries :: "fuse \<Rightarrow> entry \<Rightarrow> gen" where
  "Snapshot_compute_entries fs self =
     (case self of
        Snapshot _ _ swhid \<Rightarrow>
          (case get_metadata fs swhid of
             Inl err \<Rightarrow> ([], Some err)
           | Inr (SnapshotMeta branches) \<Rightarrow>
               (let root_path = get_relative_root_path fs self
                in (map (\<lambda>(branch_name, branch_target).
                           FuseSymlinkEntry (quote_plus branch_name)
                             (Path_str [root_path, ''archive/'' @ str_swhid branch_target]))
                      branches, None))
           | Inr _ \<Rightarrow> ([], Some AttributeError))
      | _ \<Rightarrow> ([], Some AttributeError))"

section \<open>RevisionHistoryShardByDate\<close>

text \<open>
  \<^verbatim>\<open>get_full_sharded_name\<close>: the date of the cached record as \<^verbatim>\<open>YYYY/MM/DD\<close>. A record
  of another kind has no \<^verbatim>\<open>"date"\<close>.
\<close>

definition date_name :: "date \<Rightarrow> string" where
  "date_name dt =
     format_0d 4 (year dt) @ ''/'' @ format_0d 2 (month dt) @ ''/'' @ format_0d 2 (day dt)"

definition ByDate_get_full_sharded_name :: "metadata \<Rightarrow> error + string" where
  "ByDate_get_full_sharded_name meta =
     (case meta of
        RevisionMeta _ _ dt \<Rightarrow> Inr (date_name dt)
      | DirectoryMeta _ \<Rightarrow> Inl TypeError
      | _ \<Rightarrow> Inl KeyError)"

text \<open>\<^verbatim>\<open>not meta\<close> for a record of the cache: an empty list and an empty dict are false.\<close>

definition falsy :: "metadata \<Rightarrow> bool" where
  "falsy meta = (case meta of DirectoryMeta es \<Rightarrow> es = [] | SnapshotMeta bs \<Rightarrow> bs = [] | _ \<Rightarrow> False)"

text \<open>
  The loop of \<^verbatim>\<open>compute_entries\<close> over the history, with its three variables
  (\<^verbatim>\<open>is_status_done\<close>, \<^verbatim>\<open>subdirs\<close>, \<^verbatim>\<open>nb_entries\<close>) as the state: the children yielded, and
  the state at the end or the exception raised.
\<close>

fun ByDate_loop :: "fuse \<Rightarrow> SWHID \<Rightarrow> string \<Rightarrow> SWHID list \<Rightarrow> bool \<times> string set \<times> nat
    \<Rightarrow> entry list \<times> (error + bool \<times> string set \<times> nat)" where
  "ByDate_loop fs hs pfx [] st = ([], Inr st)"
| "ByDate_loop fs hs pfx (swhid # rest) (is_status_done, subdirs, nb_entries) =
     (case cache_metadata_get fs swhid of
        None \<Rightarrow> ByDate_loop fs hs pfx rest (False, subdirs, nb_entries)
      | Some meta \<Rightarrow>
          if falsy meta then ByDate_loop fs hs pfx rest (False, subdirs, nb_entries)
          else
            (case ByDate_get_full_sharded_name meta of
               Inl err \<Rightarrow> ([], Inl err)
             | Inr nm \<Rightarrow>
                 if \<not> startswith nm pfx then
                   ByDate_loop fs hs pfx rest (is_status_done, subdirs, nb_entries + 1)
                 else
                   (case py_index (split_char CHR ''/'' nm) (count_char CHR ''/'' pfx) of
                      Inl err \<Rightarrow> ([], Inl err)
                    | Inr next_prefix \<Rightarrow>
                        if next_prefix \<in> subdirs then
                          ByDate_loop fs hs pfx rest (is_status_done, subdirs, nb_entries + 1)
                        else
                          (case ByDate_loop fs hs pfx rest
                                  (is_status_done, insert next_prefix subdirs, nb_entries + 1) of
                             (ys, r) \<Rightarrow>
                               (RevisionHistoryShardByDate next_prefix RDONLY_DIR hs
                                  (pfx @ next_prefix @ ''/'') # ys, r)))))"

definition ByDate_compute_entries :: "fuse \<Rightarrow> entry \<Rightarrow> gen" where
  "ByDate_compute_entries fs self =
     (case self of
        RevisionHistoryShardByDate _ _ history_swhid pfx \<Rightarrow>
          (case get_history fs history_swhid of
             Inl err \<Rightarrow> ([], Some err)
           | Inr history \<Rightarrow>
               (case ByDate_loop fs history_swhid pfx history (True, {}, 0) of
                  (ys, Inl err) \<Rightarrow> (ys, Some err)
                | (ys, Inr (is_status_done, _, nb_entries)) \<Rightarrow>
                    (if \<not> is_status_done then
                       ys @ [StatusFile ''.status'' RDONLY_FILE nb_entries (length history)]
                     else ys, None)))
      | _ \<Rightarrow> ([], Some AttributeError))"




text \<open>
  What the statements about the by-date tree are written with: the components of a
  date's name, the prefix of a node from the names on the way to it, the dates of the
  members of the history that are in the cache, and the two conditions on the cache
  (every cached record of a member is a commit's; every member is cached). \<open>fresh\<close>
  keeps the first occurrence of every element that is not in a set, \<open>next_components\<close>
  are the components that the loop looks at, and \<open>nat_of_digits\<close> reads a decimal
  numeral.
\<close>

definition date_path :: "date \<Rightarrow> string list" where
  "date_path dt = [format_0d 4 (year dt), format_0d 2 (month dt), format_0d 2 (day dt)]"


definition cached_dates :: "fuse \<Rightarrow> SWHID list \<Rightarrow> date list" where
  "cached_dates fs xs =
     concat (map (\<lambda>s. case cache_metadata_get fs s of
                          Some (RevisionMeta _ _ dt) \<Rightarrow> [dt] | _ \<Rightarrow> []) xs)"

definition revisions_cached :: "fuse \<Rightarrow> SWHID list \<Rightarrow> bool" where
  "revisions_cached fs xs =
     list_all (\<lambda>s. case cache_metadata_get fs s of
                      None \<Rightarrow> True | Some (RevisionMeta _ _ _) \<Rightarrow> True | Some _ \<Rightarrow> False) xs"

definition all_cached :: "fuse \<Rightarrow> SWHID list \<Rightarrow> bool" where
  "all_cached fs xs = list_all (\<lambda>s. cache_metadata_get fs s \<noteq> None) xs"

fun fresh :: "'a set \<Rightarrow> 'a list \<Rightarrow> 'a list" where
  "fresh seen [] = []"
| "fresh seen (x # xs) = (if x \<in> seen then fresh seen xs else x # fresh (insert x seen) xs)"

definition next_components :: "string \<Rightarrow> date list \<Rightarrow> string list" where
  "next_components pfx dts =
     map (\<lambda>dt. date_path dt ! count_char CHR ''/'' pfx)
       (filter (\<lambda>dt. startswith (date_name dt) pfx) dts)"



section \<open>The directory-entry cache\<close>

text \<open>
  Modelled from the spec: the directory-entry cache, a collaborator that is not part of
  this module, is a store of the children of a node with the two operations
  \<^verbatim>\<open>cache.direntry.get/set(node, children)\<close>; a listing of a node that is in the cache
  is answered from it. The cache is a map from nodes to lists of children. What a
  listing of a by-hash or by-page node does is a trace of events, in the order of the
  source: a call of \<^verbatim>\<open>self.fuse.cache.direntry.set\<close> or a child given to the caller by
  \<^verbatim>\<open>yield\<close>. \<open>run_events\<close> is the cache after a trace and \<open>yielded\<close> the children that the
  caller received.
\<close>

datatype event = Set_direntry entry "entry list" | Yield entry

definition run_events :: "event list \<Rightarrow> (entry \<Rightarrow> entry list option) \<Rightarrow> (entry \<Rightarrow> entry list option)" where
  "run_events evs cache =
     foldl (\<lambda>c ev. case ev of Set_direntry node children \<Rightarrow> c(node \<mapsto> children) | Yield _ \<Rightarrow> c)
       cache evs"

definition yielded :: "event list \<Rightarrow> entry list" where
  "yielded evs = concat (map (\<lambda>ev. case ev of Yield e \<Rightarrow> [e] | _ \<Rightarrow> []) evs)"

definition is_yield :: "event \<Rightarrow> bool" where
  "is_yield ev = (case ev of Yield _ \<Rightarrow> True | _ \<Rightarrow> False)"

section \<open>RevisionHistoryShardByHash\<close>

text \<open>
  \<^verbatim>\<open>s[a:b]\<close> with the clamping of Python's slices, and
  \<^verbatim>\<open>d.setdefault(k, []).append(v)\<close> on a dict that keeps the order of insertion (an
  association list with distinct keys).
\<close>

definition py_slice :: "'a list \<Rightarrow> int \<Rightarrow> int \<Rightarrow> 'a list" where
  "py_slice xs a b =
     (let n = int (length xs);
          lo = (if a < 0 then max 0 (n + a) else min a n);
          hi = (if b < 0 then max 0 (n + b) else min b n)
      in take (nat (hi - lo)) (drop (nat lo) xs))"

fun setdefault_append :: "('k \<times> 'v list) list \<Rightarrow> 'k \<Rightarrow> 'v \<Rightarrow> ('k \<times> 'v list) list" where
  "setdefault_append [] k v = [(k, [v])]"
| "setdefault_append ((k', vs) # d) k v =
     (if k' = k then (k', vs @ [v]) # d else (k', vs) # setdefault_append d k v)"

text \<open>
  \<^verbatim>\<open>get_full_sharded_name\<close>: the parts of the digest, \<^verbatim>\<open>sharding_depth\<close> of them, each of
  \<^verbatim>\<open>sharding_length\<close> characters, then the whole identifier, joined as a path.
\<close>

definition ByHash_get_full_sharded_name :: "fuse \<Rightarrow> SWHID \<Rightarrow> string" where
  "ByHash_get_full_sharded_name fs swhid =
     (if sharding_depth fs \<le> 0 then str_swhid swhid
      else
        (let basename = object_id swhid;
             parts = map (\<lambda>i. py_slice basename (int i * sharding_length fs)
                                  ((int i + 1) * sharding_length fs))
                       [0..<nat (sharding_depth fs)]
         in Path_str (parts @ [str_swhid swhid])))"

text \<open>
  \<^verbatim>\<open>fill_direntry_cache\<close> of the node with the fields \<open>nm\<close>, \<open>md\<close>, \<open>hs\<close> and \<open>pfx\<close> (name,
  mode, \<^verbatim>\<open>history_swhid\<close> and \<^verbatim>\<open>prefix\<close>). It returns the children and the calls of
  \<^verbatim>\<open>direntry.set\<close> in the order they are made: those of each child's own call, child
  after child, then the one for the node itself. The method calls itself on every
  child, and nothing in it bounds the depth (a prefix may never reach
  \<^verbatim>\<open>sharding_depth\<close> slashes), so the first argument bounds the depth of the calls and
  \<open>None\<close> says the bound was reached.
\<close>

fun ByHash_fill_direntry_cache ::
    "nat \<Rightarrow> fuse \<Rightarrow> string \<Rightarrow> int \<Rightarrow> SWHID \<Rightarrow> string \<Rightarrow> SWHID list
     \<Rightarrow> (entry list \<times> (entry \<times> entry list) list) option" where
  "ByHash_fill_direntry_cache 0 fs nm md hs pfx swhids = None"
| "ByHash_fill_direntry_cache (Suc fuel) fs nm md hs pfx swhids =
     (let self = RevisionHistoryShardByHash nm md hs pfx;
          depth = count_char CHR ''/'' pfx
      in if int depth = sharding_depth fs then
           (let root_path = get_relative_root_path fs self;
                children = map (\<lambda>swhid. FuseSymlinkEntry (str_swhid swhid)
                                   (Path_str [root_path, ''archive/'' @ str_swhid swhid])) swhids
            in Some (children, [(self, children)]))
         else
           (let prefix_len = length pfx;
                subdirs = foldl (\<lambda>d swhid.
                             setdefault_append d
                               (py_slice (ByHash_get_full_sharded_name fs swhid) (int prefix_len)
                                  (int prefix_len + sharding_length fs)) swhid) [] swhids
            in case those (map (\<lambda>(subdir, subentries).
                             map_option (\<lambda>(_, sets).
                                 (RevisionHistoryShardByHash subdir RDONLY_DIR hs
                                    (pfx @ subdir @ ''/''), sets))
                               (ByHash_fill_direntry_cache fuel fs subdir RDONLY_DIR hs
                                  (pfx @ subdir @ ''/'') subentries)) subdirs) of
                 None \<Rightarrow> None
               | Some rs \<Rightarrow>
                   (let children = map fst rs
                    in Some (children, concat (map snd rs) @ [(self, children)]))))"

text \<open>
  \<^verbatim>\<open>compute_entries\<close>: the history is fetched, the members whose digest starts with the
  prefix without its slashes are kept, the cache is filled, and only then the children
  are given to the caller.
\<close>

definition ByHash_compute_entries :: "nat \<Rightarrow> fuse \<Rightarrow> entry \<Rightarrow> (event list \<times> error option) option" where
  "ByHash_compute_entries fuel fs self =
     (case self of
        RevisionHistoryShardByHash nm md history_swhid pfx \<Rightarrow>
          (case get_history fs history_swhid of
             Inl err \<Rightarrow> Some ([], Some err)
           | Inr history \<Rightarrow>
               (let hash_prefix = filter (\<lambda>c. c \<noteq> CHR ''/'') pfx;
                    swhids = filter (\<lambda>s. startswith (object_id s) hash_prefix) history
                in case ByHash_fill_direntry_cache fuel fs nm md history_swhid pfx swhids of
                     None \<Rightarrow> None
                   | Some (children, sets) \<Rightarrow>
                       Some (map (\<lambda>(node, children). Set_direntry node children) sets
                             @ map Yield children, None)))
      | _ \<Rightarrow> Some ([], Some AttributeError))"

text \<open>
  Listing a by-hash tree recursively from a node: the children of every node are read
  from the directory-entry cache, where \<^verbatim>\<open>fill_direntry_cache\<close> put them; a by-hash child
  is walked in turn, any other child is a leaf, returned with the names of the
  directories on the way to it. The first argument bounds the depth.
\<close>

fun ByHash_walk :: "nat \<Rightarrow> (entry \<Rightarrow> entry list option) \<Rightarrow> string list \<Rightarrow> entry
    \<Rightarrow> (string list \<times> entry) list option" where
  "ByHash_walk 0 cache anc node = None"
| "ByHash_walk (Suc k) cache anc node =
     (case cache node of
        None \<Rightarrow> None
      | Some children \<Rightarrow>
          map_option concat
            (those (map (\<lambda>c. case c of
                              RevisionHistoryShardByHash nm _ _ _ \<Rightarrow> ByHash_walk k cache (anc @ [nm]) c
                            | _ \<Rightarrow> Some [(anc, c)]) children)))"

text \<open>
  What the statements about the by-hash tree are written with: a digest is 40
  hexadecimal digits; \<open>hash_part fs i s\<close> is the \<open>i\<close>-th group of \<^verbatim>\<open>sharding_length\<close>
  characters of the digest of \<open>s\<close>, \<open>hash_parts\<close> the first \<^verbatim>\<open>sharding_depth\<close> groups and
  \<open>shard_prefix fs d s\<close> the prefix of the node of depth \<open>d\<close> above \<open>s\<close>. \<open>sharding_ok\<close>
  says that the groups lie within the digest. \<open>leaf_entry\<close>, \<open>shard_child\<close>, \<open>shard_key\<close>
  and \<open>shard_groups\<close> name the symlink made for a member, the directory made for a
  group, the key under which a member is grouped and the groups themselves;
  \<open>holds_sets\<close> says that a cache holds what a list of calls of \<^verbatim>\<open>direntry.set\<close> stored,
  and \<open>node_result\<close> is what the proof shows of every node of the tree.
\<close>

definition is_digest :: "string \<Rightarrow> bool" where
  "is_digest h = (length h = 40 \<and> list_all (\<lambda>c. c \<in> set ''0123456789abcdef'') h)"

definition hash_part :: "fuse \<Rightarrow> nat \<Rightarrow> SWHID \<Rightarrow> string" where
  "hash_part fs i s =
     take (nat (sharding_length fs)) (drop (i * nat (sharding_length fs)) (object_id s))"

definition hash_parts :: "fuse \<Rightarrow> SWHID \<Rightarrow> string list" where
  "hash_parts fs s = map (\<lambda>i. hash_part fs i s) [0..<nat (sharding_depth fs)]"

definition shard_prefix :: "fuse \<Rightarrow> nat \<Rightarrow> SWHID \<Rightarrow> string" where
  "shard_prefix fs d s = concat (map (\<lambda>i. hash_part fs i s @ ''/'') [0..<d])"

fun entry_prefix :: "entry \<Rightarrow> string" where
  "entry_prefix (RevisionHistoryShardByHash _ _ _ pfx) = pfx"
| "entry_prefix (RevisionHistoryShardByDate _ _ _ pfx) = pfx"
| "entry_prefix _ = []"

definition sharding_ok :: "fuse \<Rightarrow> bool" where
  "sharding_ok fs =
     (0 \<le> sharding_depth fs \<and> 0 \<le> sharding_length fs
      \<and> nat (sharding_depth fs) * nat (sharding_length fs) \<le> 40)"

definition leaf_names :: "(string list \<times> entry) list \<Rightarrow> (string list \<times> string) list" where
  "leaf_names ls = map (\<lambda>(anc, e). (anc, entry_name e)) ls"

definition is_symlink :: "entry \<Rightarrow> bool" where
  "is_symlink e = (case e of FuseSymlinkEntry _ _ \<Rightarrow> True | _ \<Rightarrow> False)"

definition holds_sets :: "(entry \<Rightarrow> entry list option) \<Rightarrow> (entry \<times> entry list) list \<Rightarrow> bool" where
  "holds_sets C sets = list_all (\<lambda>(k, v). C k = Some v) sets"

definition node_result ::
    "fuse \<Rightarrow> nat \<Rightarrow> nat \<Rightarrow> SWHID \<Rightarrow> entry \<Rightarrow> SWHID list \<Rightarrow> entry list
     \<Rightarrow> (entry \<times> entry list) list \<Rightarrow> bool" where
  "node_result fs fuel d hs self swhids children sets =
     ((\<forall>k\<in>fst ` set sets. \<exists>nm' pfx'. k = RevisionHistoryShardByHash nm' RDONLY_DIR hs pfx'
          \<and> length (entry_prefix self) < length pfx'
          \<and> take (length (entry_prefix self)) pfx' = entry_prefix self)
      \<and> distinct (map fst sets)
      \<and> (\<forall>C anc. holds_sets C (sets @ [(self, children)]) \<longrightarrow>
            (\<exists>ls. ByHash_walk fuel C anc self = Some ls
               \<and> mset (leaf_names ls)
                   = mset (map (\<lambda>s. (anc @ drop d (hash_parts fs s), str_swhid s)) swhids)
               \<and> list_all (\<lambda>(a, e). is_symlink e) ls)))"

definition leaf_entry :: "fuse \<Rightarrow> entry \<Rightarrow> SWHID \<Rightarrow> entry" where
  "leaf_entry fs self s =
     FuseSymlinkEntry (str_swhid s)
       (Path_str [get_relative_root_path fs self, ''archive/'' @ str_swhid s])"

definition shard_child :: "SWHID \<Rightarrow> string \<Rightarrow> string \<Rightarrow> entry" where
  "shard_child hs pfx subdir = RevisionHistoryShardByHash subdir RDONLY_DIR hs (pfx @ subdir @ ''/'')"

definition shard_key :: "fuse \<Rightarrow> string \<Rightarrow> SWHID \<Rightarrow> string" where
  "shard_key fs pfx swhid =
     py_slice (ByHash_get_full_sharded_name fs swhid) (int (length pfx))
       (int (length pfx) + sharding_length fs)"

definition shard_groups :: "fuse \<Rightarrow> string \<Rightarrow> SWHID list \<Rightarrow> (string \<times> SWHID list) list" where
  "shard_groups fs pfx swhids =
     foldl (\<lambda>d swhid. setdefault_append d (shard_key fs pfx swhid) swhid) [] swhids"

section \<open>RevisionHistoryShardByPage\<close>

definition PAGE_SIZE :: nat where
  "PAGE_SIZE = 10000"

definition PAGE_FMT :: "int \<Rightarrow> string" where
  "PAGE_FMT page_number = format_0d 3 page_number"

text \<open>
  The loop of \<^verbatim>\<open>fill_direntry_cache\<close> over \<^verbatim>\<open>enumerate(swhids)\<close>. Its state is
  \<^verbatim>\<open>page_number\<close>, \<^verbatim>\<open>page\<close>, \<^verbatim>\<open>page_root_path\<close>, \<^verbatim>\<open>page_children\<close>, \<^verbatim>\<open>pages\<close> and the calls of
  \<^verbatim>\<open>direntry.set\<close> made so far. \<^verbatim>\<open>page.create_child\<close> on a \<^verbatim>\<open>page\<close> that is \<^verbatim>\<open>None\<close> raises
  \<^verbatim>\<open>AttributeError\<close> and \<^verbatim>\<open>Path(None, ...)\<close> raises \<^verbatim>\<open>TypeError\<close>.
\<close>

type_synonym by_page_state =
  "int \<times> entry option \<times> string option \<times> entry list \<times> entry list \<times> (entry \<times> entry list) list"

fun ByPage_loop :: "fuse \<Rightarrow> SWHID \<Rightarrow> nat \<Rightarrow> SWHID list \<Rightarrow> by_page_state \<Rightarrow> error + by_page_state" where
  "ByPage_loop fs hs idx [] st = Inr st"
| "ByPage_loop fs hs idx (swhid # rest) (page_number, page, page_root_path, page_children, pages, sets) =
     (case (if idx mod PAGE_SIZE = 0 then
              (let (pages', sets') =
                     (case page of
                        Some pg \<Rightarrow> (pages @ [pg], sets @ [(pg, page_children)])
                      | None \<Rightarrow> (pages, sets));
                   page_number' = page_number + 1;
                   pg' = RevisionHistoryShardByPage (PAGE_FMT page_number') RDONLY_DIR hs
               in (page_number', Some pg', Some (get_relative_root_path fs pg'), [], pages', sets'))
            else (page_number, page, page_root_path, page_children, pages, sets)) of
        (page_number, Some pg, Some root_path, page_children, pages, sets) \<Rightarrow>
          ByPage_loop fs hs (idx + 1) rest
            (page_number, Some pg, Some root_path,
             page_children @ [FuseSymlinkEntry (str_swhid swhid)
                                (Path_str [root_path, ''archive/'' @ str_swhid swhid])],
             pages, sets)
      | (_, None, _, _, _, _) \<Rightarrow> Inl AttributeError
      | (_, Some _, None, _, _, _) \<Rightarrow> Inl TypeError)"

text \<open>
  \<^verbatim>\<open>fill_direntry_cache\<close> returns the pages and the calls of \<^verbatim>\<open>direntry.set\<close> in the order
  they are made; \<^verbatim>\<open>compute_entries\<close> fetches the history, fills the cache and then gives
  the pages to the caller.
\<close>

definition ByPage_fill_direntry_cache ::
    "fuse \<Rightarrow> entry \<Rightarrow> SWHID list \<Rightarrow> error + entry list \<times> (entry \<times> entry list) list" where
  "ByPage_fill_direntry_cache fs self swhids =
     (case self of
        RevisionHistoryShardByPage _ _ history_swhid \<Rightarrow>
          (case ByPage_loop fs history_swhid 0 swhids (- 1, None, None, [], [], []) of
             Inl err \<Rightarrow> Inl err
           | Inr (page_number, page, page_root_path, page_children, pages, sets) \<Rightarrow>
               (let (pages', sets') =
                      (case page of
                         Some pg \<Rightarrow> (pages @ [pg], sets @ [(pg, page_children)])
                       | None \<Rightarrow> (pages, sets))
                in Inr (pages', sets' @ [(self, pages')])))
      | _ \<Rightarrow> Inl AttributeError)"

definition ByPage_compute_entries :: "fuse \<Rightarrow> entry \<Rightarrow> event list \<times> error option" where
  "ByPage_compute_entries fs self =
     (case self of
        RevisionHistoryShardByPage _ _ history_swhid \<Rightarrow>
          (case get_history fs history_swhid of
             Inl err \<Rightarrow> ([], Some err)
           | Inr history \<Rightarrow>
               (case ByPage_fill_direntry_cache fs self history of
                  Inl err \<Rightarrow> ([], Some err)
                | Inr (pages, sets) \<Rightarrow>
                    (map (\<lambda>(node, children). Set_direntry node children) sets @ map Yield pages,
                     None)))
      | _ \<Rightarrow> ([], Some AttributeError))"

text \<open>
  What the statements about the pages are written with: the directory of the page of
  index \<open>i\<close>, the symlink made in it for a member, the call of \<^verbatim>\<open>direntry.set\<close> for the
  page, the number of pages of \<open>n\<close> members, and the state of the loop after \<open>k\<close>
  members.
\<close>

definition page_entry :: "SWHID \<Rightarrow> nat \<Rightarrow> entry" where
  "page_entry hs i = RevisionHistoryShardByPage (PAGE_FMT (int i)) RDONLY_DIR hs"

definition page_symlink :: "fuse \<Rightarrow> SWHID \<Rightarrow> nat \<Rightarrow> SWHID \<Rightarrow> entry" where
  "page_symlink fs hs i s =
     FuseSymlinkEntry (str_swhid s)
       (Path_str [get_relative_root_path fs (page_entry hs i), ''archive/'' @ str_swhid s])"

definition page_set :: "fuse \<Rightarrow> SWHID \<Rightarrow> SWHID list \<Rightarrow> nat \<Rightarrow> entry \<times> entry list" where
  "page_set fs hs xs i =
     (page_entry hs i, map (page_symlink fs hs i) (take PAGE_SIZE (drop (i * PAGE_SIZE) xs)))"

definition page_count :: "nat \<Rightarrow> nat" where
  "page_count n = (n + PAGE_SIZE - 1) div PAGE_SIZE"

definition by_page_inv :: "fuse \<Rightarrow> SWHID \<Rightarrow> SWHID list \<Rightarrow> nat \<Rightarrow> by_page_state \<Rightarrow> bool" where
  "by_page_inv fs hs xs k st =
     (if k = 0 then st = (- 1, None, None, [], [], [])
      else (let c = (k - 1) div PAGE_SIZE
            in st = (int c, Some (page_entry hs c),
                     Some (get_relative_root_path fs (page_entry hs c)),
                     map (page_symlink fs hs c) (take (k - c * PAGE_SIZE) (drop (c * PAGE_SIZE) xs)),
                     map (page_entry hs) [0..<c],
                     map (page_set fs hs xs) [0..<c])))"

section \<open>An example archive\<close>

text \<open>A small archive on which the theorems below are instantiated.\<close>

definition ex_blob :: SWHID where
  "ex_blob = SWHID CONTENT ''94a9ed024d3859793618152ea559a168bbcbb5e2''"

definition ex_link_blob :: SWHID where
  "ex_link_blob = SWHID CONTENT ''c1a4b5d0e8f7a6b5c4d3e2f1a0b9c8d7e6f5a4b3''"

definition ex_subtree :: SWHID where
  "ex_subtree = SWHID DIRECTORY ''4b825dc642cb6eb9a060e54bf8d69288fbee4904''"

definition ex_tree :: SWHID where
  "ex_tree = SWHID DIRECTORY ''9b1c3a7f5e2d4c6b8a0f1e3d5c7b9a2f4e6d8c0b''"

definition ex_odd_tree :: SWHID where
  "ex_odd_tree = SWHID DIRECTORY ''0f1e2d3c4b5a69788796a5b4c3d2e1f00f1e2d3c''"

definition ex_release :: SWHID where
  "ex_release = SWHID RELEASE ''208f61cc7a5dbc9879ae6e5c2f95891e270f09ef''"

definition ex_release2 :: SWHID where
  "ex_release2 = SWHID RELEASE ''741e1a3b5c7d9f0e2a4c6e8b0d1f3a5c7e9b2d4f''"

definition ex_blob_release :: SWHID where
  "ex_blob_release = SWHID RELEASE ''5d6e7f8091a2b3c4d5e6f708192a3b4c5d6e7f80''"

definition ex_revision :: SWHID where
  "ex_revision = SWHID REVISION ''d012a7190fc1fd72ed48911e77ca97ba4521bccd''"

definition ex_snapshot :: SWHID where
  "ex_snapshot = SWHID SNAPSHOT ''c7c108084bc0bf3d81436bf980b46e98bd338453''"

definition ex_tree_entries :: "dentry list" where
  "ex_tree_entries =
     [\<lparr>name = ''README'', target = ex_blob, perms = 33188, length_hint = 12\<rparr>,
      \<lparr>name = ''src'', target = ex_subtree, perms = 16384, length_hint = 0\<rparr>,
      \<lparr>name = ''link'', target = ex_link_blob, perms = 40960, length_hint = 6\<rparr>]"

definition ex_odd_entries :: "dentry list" where
  "ex_odd_entries =
     [\<lparr>name = ''README'', target = ex_blob, perms = 33188, length_hint = 12\<rparr>,
      \<lparr>name = ''tag'', target = ex_release, perms = 33188, length_hint = 0\<rparr>,
      \<lparr>name = ''src'', target = ex_subtree, perms = 16384, length_hint = 0\<rparr>]"

definition ex_get_metadata :: "SWHID \<Rightarrow> error + metadata" where
  "ex_get_metadata s =
     (if s = ex_tree then Inr (DirectoryMeta ex_tree_entries)
      else if s = ex_odd_tree then Inr (DirectoryMeta ex_odd_entries)
      else if s = ex_release then Inr (ReleaseMeta ex_release2)
      else if s = ex_release2 then Inr (ReleaseMeta ex_revision)
      else if s = ex_blob_release then Inr (ReleaseMeta ex_blob)
      else if s = ex_revision then
        Inr (RevisionMeta ex_tree [] \<lparr>year = 2020, month = 9, day = 25\<rparr>)
      else if s = ex_snapshot then
        Inr (SnapshotMeta [(''feature/x'', ex_revision), (''refs/tags/v1.0'', ex_release)])
      else Inl FetchError)"

definition ex_get_blob :: "SWHID \<Rightarrow> error + string" where
  "ex_get_blob s = (if s = ex_link_blob then Inr ''README'' else Inl FetchError)"

definition ex_fuse :: fuse where
  "ex_fuse =
     \<lparr>get_blob = ex_get_blob, get_metadata = ex_get_metadata,
      get_history = (\<lambda>_. Inl FetchError), cache_metadata_get = (\<lambda>_. None),
      sharding_depth = 1, sharding_length = 2,
      get_relative_root_path = (\<lambda>_. ''../../'')\<rparr>"

definition ex_rev2 :: SWHID where
  "ex_rev2 = SWHID REVISION ''a1b2c3d4e5f60718293a4b5c6d7e8f9001122334''"

definition ex_rev3 :: SWHID where
  "ex_rev3 = SWHID REVISION ''a1f0e9d8c7b6a5948372615049382716a5b4c3d2''"

definition ex_history :: "SWHID list" where
  "ex_history = [ex_revision, ex_rev2, ex_rev3]"

definition ex_cache :: "SWHID \<Rightarrow> metadata option" where
  "ex_cache s =
     (if s = ex_revision then
        Some (RevisionMeta ex_tree [ex_rev2] \<lparr>year = 2020, month = 9, day = 25\<rparr>)
      else if s = ex_rev2 then
        Some (RevisionMeta ex_tree [ex_rev3] \<lparr>year = 2020, month = 9, day = 3\<rparr>)
      else None)"


definition ex_fuse2 :: fuse where
  "ex_fuse2 = ex_fuse\<lparr>get_history := (\<lambda>s. if s = ex_revision then Inr ex_history else Inl FetchError),
     cache_metadata_get := ex_cache\<rparr>"


text \<open>
  The same archive with two levels of 40 characters each, and a history of one commit.
\<close>

definition ex_fuse_wide :: fuse where
  "ex_fuse_wide = ex_fuse2\<lparr>sharding_depth := 2, sharding_length := 40,
     get_history := (\<lambda>_. Inr [ex_revision])\<rparr>"

section \<open>Properties of the tree listing\<close>

lemma for_each_singletons:
  assumes "\<forall>x ys. f x = Inr ys \<longrightarrow> length ys = 1"
    and "for_each f xs = (ys, r)"
  shows "length ys \<le> length xs
       \<and> (\<forall>i<length ys. f (xs ! i) = Inr [ys ! i])
       \<and> (r = None \<longrightarrow> length ys = length xs)
       \<and> (\<forall>e. r = Some e \<longrightarrow> length ys < length xs \<and> f (xs ! length ys) = Inl e)"
  using assms(2)
proof (induction xs arbitrary: ys r)
  case Nil
  then show ?case by simp
next
  case (Cons x xs)
  show ?case
  proof (cases "f x")
    case (Inl e)
    with Cons.prems show ?thesis by auto
  next
    case (Inr y1)
    with assms(1) have "length y1 = 1" by blast
    then obtain y where y: "y1 = [y]"
      by (cases y1) auto
    obtain zs r' where rec: "for_each f xs = (zs, r')" by (cases "for_each f xs")
    with Cons.prems Inr y have ys: "ys = y # zs" and r: "r = r'" by auto
    note IH = Cons.IH[OF rec]
    show ?thesis
      unfolding ys r using IH Inr y
      by (auto simp: nth_Cons split: nat.splits)
  qed
qed

lemma Directory_entry_single: "Directory_entry fs self e = Inr ys \<Longrightarrow> length ys = 1"
  by (auto simp: Directory_entry_def Let_def split: if_splits sum.splits)

lemma Directory_listing:
  assumes "get_metadata fs swhid = Inr (DirectoryMeta entries)"
    and "Directory_compute_entries fs (Directory n m swhid) = (ys, r)"
  shows "length ys \<le> length entries
       \<and> (\<forall>i<length ys. Directory_entry fs (Directory n m swhid) (entries ! i) = Inr [ys ! i])
       \<and> (r = None \<longrightarrow> length ys = length entries)
       \<and> (\<forall>e. r = Some e \<longrightarrow> length ys < length entries
              \<and> Directory_entry fs (Directory n m swhid) (entries ! length ys) = Inl e)"
proof -
  have fe: "for_each (Directory_entry fs (Directory n m swhid)) entries = (ys, r)"
    using assms by (simp add: Directory_compute_entries_def)
  have single: "\<forall>x ys. Directory_entry fs (Directory n m swhid) x = Inr ys \<longrightarrow> length ys = 1"
    by (simp add: Directory_entry_single)
  from for_each_singletons[OF single fe] show ?thesis .
qed

lemma ex_tree_listing:
  "Directory_compute_entries ex_fuse (Directory ''root'' RDONLY_DIR ex_tree) =
     ([Content ''README'' 33188 ex_blob
         (Some \<lparr>name = ''README'', target = ex_blob, perms = 33188, length_hint = 12\<rparr>),
       Directory ''src'' RDONLY_DIR ex_subtree,
       Content ''link'' 40960 ex_link_blob
         (Some \<lparr>name = ''link'', target = ex_link_blob, perms = 40960, length_hint = 6\<rparr>)],
      None)"
  by (simp add: Directory_compute_entries_def Directory_entry_def Let_def ex_fuse_def
      ex_get_metadata_def ex_tree_entries_def ex_tree_def ex_blob_def ex_subtree_def
      ex_link_blob_def)

lemma ex_odd_listing:
  "Directory_compute_entries ex_fuse (Directory ''root'' RDONLY_DIR ex_odd_tree) =
     ([Content ''README'' 33188 ex_blob
         (Some \<lparr>name = ''README'', target = ex_blob, perms = 33188, length_hint = 12\<rparr>)],
      Some Unknown_directory_entry_type)"
  by (simp add: Directory_compute_entries_def Directory_entry_def Let_def ex_fuse_def
      ex_get_metadata_def ex_odd_entries_def ex_tree_def ex_odd_tree_def ex_blob_def
      ex_release_def DentryPerms_symlink_def)

text \<open>
  C1. The claim: an item whose permission bits are those of a symbolic link is listed as
  a symlink child whose target is the blob's bytes, whatever the kind of its target, a
  blob included. The code tests the kind of the target first: an item whose target is a
  blob is listed as a \<open>Content\<close> child (a regular file entry) carrying the symlink
  bits as its mode, and the blob is not read.
\<close>

theorem Directory_blob_symlink_listed_as_Content:
  "Directory_entry fs self
     \<lparr>name = nm, target = SWHID CONTENT h, perms = DentryPerms_symlink, length_hint = n\<rparr>
   = Inr [Content nm DentryPerms_symlink (SWHID CONTENT h)
       (Some \<lparr>name = nm, target = SWHID CONTENT h, perms = DentryPerms_symlink,
          length_hint = n\<rparr>)]"
  by (simp add: Directory_entry_def Let_def)

text \<open>
  C6. In a tree listing, the child yielded for an item whose target is a tree is a
  \<open>Directory\<close> whose mode is the read-only directory mode: the item's recorded
  permission bits do not occur in the child, and every \<open>Directory\<close> child of the
  listing has that mode.
\<close>

theorem Directory_tree_child_mode:
  assumes "get_metadata fs swhid = Inr (DirectoryMeta entries)"
    and "Directory_compute_entries fs (Directory n m swhid) = (ys, r)"
  shows "(\<forall>i<length ys. object_type (target (entries ! i)) = DIRECTORY \<longrightarrow>
            ys ! i = Directory (name (entries ! i)) RDONLY_DIR (target (entries ! i)))
       \<and> (\<forall>nm md s. Directory nm md s \<in> set ys \<longrightarrow> md = RDONLY_DIR)"
proof -
  note L = Directory_listing[OF assms]
  have a: "ys ! i = Directory (name (entries ! i)) RDONLY_DIR (target (entries ! i))"
    if "i < length ys" "object_type (target (entries ! i)) = DIRECTORY" for i
  proof -
    from L that(1) have "Directory_entry fs (Directory n m swhid) (entries ! i) = Inr [ys ! i]"
      by blast
    with that(2) show ?thesis by (simp add: Directory_entry_def Let_def)
  qed
  have b: "md = RDONLY_DIR" if "Directory nm md s \<in> set ys" for nm md s
  proof -
    from that obtain i where i: "i < length ys" "ys ! i = Directory nm md s"
      by (auto simp: in_set_conv_nth)
    with L have "Directory_entry fs (Directory n m swhid) (entries ! i) = Inr [Directory nm md s]"
      by auto
    then show ?thesis
      by (auto simp: Directory_entry_def Let_def split: if_splits sum.splits)
  qed
  from a b show ?thesis by blast
qed

theorem Directory_tree_child_mode_witness:
  "get_metadata ex_fuse ex_tree = Inr (DirectoryMeta ex_tree_entries)
   \<and> object_type (target (ex_tree_entries ! 1)) = DIRECTORY
   \<and> perms (ex_tree_entries ! 1) = 16384
   \<and> fst (Directory_compute_entries ex_fuse (Directory ''root'' RDONLY_DIR ex_tree)) ! 1
       = Directory ''src'' RDONLY_DIR ex_subtree
   \<and> RDONLY_DIR = 16749"
proof -
  have m: "get_metadata ex_fuse ex_tree = Inr (DirectoryMeta ex_tree_entries)"
    by (simp add: ex_fuse_def ex_get_metadata_def)
  have k: "object_type (target (ex_tree_entries ! 1)) = DIRECTORY"
    by (simp add: ex_tree_entries_def ex_subtree_def)
  have "fst (Directory_compute_entries ex_fuse (Directory ''root'' RDONLY_DIR ex_tree)) ! 1
       = Directory (name (ex_tree_entries ! 1)) RDONLY_DIR (target (ex_tree_entries ! 1))"
    using Directory_tree_child_mode[OF m ex_tree_listing, THEN conjunct1, rule_format, of 1] k
    by (simp add: ex_tree_listing)
  with m k show ?thesis
    by (simp add: ex_tree_entries_def RDONLY_DIR_def)
qed

text \<open>
  C7. An item whose target is neither a blob, a tree nor a commit, and whose permission
  bits are not those of a symbolic link, makes the listing raise: the generator ends
  with an exception, nothing is yielded for that item or for a later one, and when the
  items before it were listed, the exception is the classification error.
\<close>

theorem Directory_unknown_kind_raises:
  assumes "get_metadata fs swhid = Inr (DirectoryMeta entries)"
    and "Directory_compute_entries fs (Directory n m swhid) = (ys, r)"
    and "i < length entries"
    and "object_type (target (entries ! i)) \<notin> {CONTENT, DIRECTORY, REVISION}"
    and "perms (entries ! i) \<noteq> DentryPerms_symlink"
  shows "Directory_entry fs (Directory n m swhid) (entries ! i) = Inl Unknown_directory_entry_type
       \<and> r \<noteq> None \<and> length ys \<le> i
       \<and> (length ys = i \<longrightarrow> r = Some Unknown_directory_entry_type)"
proof -
  note L = Directory_listing[OF assms(1,2)]
  have bad: "Directory_entry fs (Directory n m swhid) (entries ! i) = Inl Unknown_directory_entry_type"
    using assms(4,5) by (simp add: Directory_entry_def Let_def)
  have le: "length ys \<le> i"
  proof (rule ccontr)
    assume "\<not> length ys \<le> i"
    then have "i < length ys" by simp
    with L have "Directory_entry fs (Directory n m swhid) (entries ! i) = Inr [ys ! i]" by blast
    with bad show False by simp
  qed
  have raised: "r \<noteq> None"
  proof
    assume "r = None"
    with L have "length ys = length entries" by blast
    with le assms(3) show False by simp
  qed
  have "r = Some Unknown_directory_entry_type" if "length ys = i"
  proof -
    from raised obtain e where e: "r = Some e" by auto
    with L have "Directory_entry fs (Directory n m swhid) (entries ! length ys) = Inl e" by blast
    with that bad e show ?thesis by simp
  qed
  with bad le raised show ?thesis by blast
qed

theorem Directory_unknown_kind_raises_witness:
  "get_metadata ex_fuse ex_odd_tree = Inr (DirectoryMeta ex_odd_entries)
   \<and> (1::nat) < length ex_odd_entries
   \<and> object_type (target (ex_odd_entries ! 1)) = RELEASE
   \<and> perms (ex_odd_entries ! 1) \<noteq> DentryPerms_symlink
   \<and> Directory_entry ex_fuse (Directory ''root'' RDONLY_DIR ex_odd_tree) (ex_odd_entries ! 1)
       = Inl Unknown_directory_entry_type
   \<and> snd (Directory_compute_entries ex_fuse (Directory ''root'' RDONLY_DIR ex_odd_tree))
       = Some Unknown_directory_entry_type
   \<and> length (fst (Directory_compute_entries ex_fuse (Directory ''root'' RDONLY_DIR ex_odd_tree)))
       = 1"
proof -
  have m: "get_metadata ex_fuse ex_odd_tree = Inr (DirectoryMeta ex_odd_entries)"
    by (simp add: ex_fuse_def ex_get_metadata_def ex_tree_def ex_odd_tree_def)
  have i: "(1::nat) < length ex_odd_entries"
    by (simp add: ex_odd_entries_def)
  have k: "object_type (target (ex_odd_entries ! 1)) \<notin> {CONTENT, DIRECTORY, REVISION}"
    and k': "object_type (target (ex_odd_entries ! 1)) = RELEASE"
    by (simp_all add: ex_odd_entries_def ex_release_def)
  have p: "perms (ex_odd_entries ! 1) \<noteq> DentryPerms_symlink"
    by (simp add: ex_odd_entries_def DentryPerms_symlink_def)
  from Directory_unknown_kind_raises[OF m ex_odd_listing i k p]
  have "Directory_entry ex_fuse (Directory ''root'' RDONLY_DIR ex_odd_tree) (ex_odd_entries ! 1)
       = Inl Unknown_directory_entry_type"
    by blast
  with m i k' p show ?thesis
    by (simp add: ex_odd_listing)
qed

section \<open>Properties of the release listing\<close>

lemma reaches_tree_find:
  "reaches_tree fs s d \<Longrightarrow> find_root_directory fs s = Some (Inr (Some d))"
proof (induction rule: reaches_tree.induct)
  case (tree s)
  then show ?case by (simp add: find_root_directory.simps)
next
  case (commit s d ps dt)
  then show ?case by (simp add: find_root_directory.simps metadata_directory_def)
next
  case (tag s t d)
  then show ?case
    by (subst find_root_directory.simps) (simp add: metadata_target_def)
qed

lemma find_reaches_tree:
  assumes "find_root_directory fs s = Some r"
  shows "\<forall>d. r = Inr (Some d) \<longrightarrow> reaches_tree fs s d"
proof (rule find_root_directory.raw_induct[where P = "\<lambda>fs s r. \<forall>d. r = Inr (Some d) \<longrightarrow> reaches_tree fs s d",
      OF _ assms], goal_cases)
  case (1 find fs s r)
  show ?case
  proof (intro allI impI)
    fix d assume r: "r = Inr (Some d)"
    show "reaches_tree fs s d"
    proof (cases "object_type s")
      case RELEASE
      with 1(2) r obtain md t where "get_metadata fs s = Inr md" "metadata_target md = Inr t"
        "find fs t = Some r"
        by (auto split: sum.splits)
      moreover then have "md = ReleaseMeta t"
        by (auto simp: metadata_target_def split: metadata.splits)
      ultimately show ?thesis
        using 1(1)[of fs t r] r RELEASE by (auto intro: reaches_tree.tag)
    next
      case REVISION
      with 1(2) r obtain md where "get_metadata fs s = Inr md" "metadata_directory md = Inr d"
        by (auto split: sum.splits)
      moreover then obtain ps dt where "md = RevisionMeta d ps dt"
        by (auto simp: metadata_directory_def split: metadata.splits)
      ultimately show ?thesis using REVISION by (auto intro: reaches_tree.commit)
    next
      case DIRECTORY
      with 1(2) r show ?thesis by (auto intro: reaches_tree.tree)
    next
      case CONTENT
      with 1(2) r show ?thesis by auto
    next
      case SNAPSHOT
      with 1(2) r show ?thesis by auto
    qed
  qed
qed

lemma ends_in_blob_find:
  "ends_in fs s b \<Longrightarrow> object_type b = CONTENT \<Longrightarrow> find_root_directory fs s = Some (Inr None)"
proof (induction rule: ends_in.induct)
  case (last s)
  then show ?case by (simp add: find_root_directory.simps)
next
  case (tag s t b)
  then show ?case
    by (subst find_root_directory.simps) (simp add: metadata_target_def)
qed

text \<open>
  C5. For a release whose metadata names the target: when following the target
  references from the target reaches a tree, the listing ends with a symlink named
  \<open>root\<close> into the archive namespace at that tree's identifier, and no other child is
  named \<open>root\<close>; when no tree is reached, no child of the listing is named \<open>root\<close>;
  and a chain of tags that ends in a blob gives a listing that completes without a
  \<open>root\<close>.
\<close>

theorem Release_root_entry:
  assumes "get_metadata fs swhid = Inr (ReleaseMeta tgt)"
  shows "(\<forall>d. reaches_tree fs tgt d \<longrightarrow>
            (\<exists>ys. Release_compute_entries fs (Release n m swhid)
                  = Some (ys @ [FuseSymlinkEntry ''root''
                       (Path_str [get_relative_root_path fs (Release n m swhid),
                          ''archive/'' @ str_swhid d])], None)
               \<and> (\<forall>e\<in>set ys. entry_name e \<noteq> ''root'')))
       \<and> ((\<nexists>d. reaches_tree fs tgt d) \<longrightarrow>
            (\<forall>ys r. Release_compute_entries fs (Release n m swhid) = Some (ys, r) \<longrightarrow>
               (\<forall>e\<in>set ys. entry_name e \<noteq> ''root'')))
       \<and> (\<forall>b. ends_in fs tgt b \<and> object_type b = CONTENT \<longrightarrow>
            (\<exists>ys. Release_compute_entries fs (Release n m swhid) = Some (ys, None)
               \<and> (\<forall>e\<in>set ys. entry_name e \<noteq> ''root'')))"
proof (intro conjI allI impI ballI)
  fix d assume "reaches_tree fs tgt d"
  then have "find_root_directory fs tgt = Some (Inr (Some d))" by (rule reaches_tree_find)
  with assms show "\<exists>ys. Release_compute_entries fs (Release n m swhid)
                  = Some (ys @ [FuseSymlinkEntry ''root''
                       (Path_str [get_relative_root_path fs (Release n m swhid),
                          ''archive/'' @ str_swhid d])], None)
               \<and> (\<forall>e\<in>set ys. entry_name e \<noteq> ''root'')"
    by (simp add: Release_compute_entries_def metadata_target_def Let_def)
next
  fix ys r e
  assume no: "\<nexists>d. reaches_tree fs tgt d"
    and res: "Release_compute_entries fs (Release n m swhid) = Some (ys, r)"
    and e: "e \<in> set ys"
  have "find_root_directory fs tgt \<noteq> Some (Inr (Some d))" for d
    using find_reaches_tree[of fs tgt "Inr (Some d)"] no by blast
  with assms res e show "entry_name e \<noteq> ''root''"
    by (auto simp: Release_compute_entries_def metadata_target_def Let_def
        split: option.splits sum.splits)
next
  fix b assume "ends_in fs tgt b \<and> object_type b = CONTENT"
  then have "find_root_directory fs tgt = Some (Inr None)" by (blast intro: ends_in_blob_find)
  with assms show "\<exists>ys. Release_compute_entries fs (Release n m swhid) = Some (ys, None)
               \<and> (\<forall>e\<in>set ys. entry_name e \<noteq> ''root'')"
    by (simp add: Release_compute_entries_def metadata_target_def Let_def)
qed


theorem Release_root_entry_witness:
  "get_metadata ex_fuse ex_release = Inr (ReleaseMeta ex_release2)
   \<and> reaches_tree ex_fuse ex_release2 ex_tree
   \<and> (\<exists>ys. Release_compute_entries ex_fuse (Release ''v1.0'' RDONLY_DIR ex_release)
           = Some (ys @ [FuseSymlinkEntry ''root''
                (Path_str [''../../'', ''archive/'' @ str_swhid ex_tree])], None))
   \<and> get_metadata ex_fuse ex_blob_release = Inr (ReleaseMeta ex_blob)
   \<and> ends_in ex_fuse ex_blob ex_blob \<and> object_type ex_blob = CONTENT
   \<and> (\<exists>ys. Release_compute_entries ex_fuse (Release ''v0'' RDONLY_DIR ex_blob_release)
           = Some (ys, None))"
proof -
  have m: "get_metadata ex_fuse ex_release = Inr (ReleaseMeta ex_release2)"
    by (simp add: ex_fuse_def ex_get_metadata_def ex_release_def ex_tree_def ex_odd_tree_def)
  have m2: "get_metadata ex_fuse ex_release2 = Inr (ReleaseMeta ex_revision)"
    by (simp add: ex_fuse_def ex_get_metadata_def ex_release_def ex_release2_def ex_tree_def
        ex_odd_tree_def)
  have m3: "get_metadata ex_fuse ex_revision
            = Inr (RevisionMeta ex_tree [] \<lparr>year = 2020, month = 9, day = 25\<rparr>)"
    by (simp add: ex_fuse_def ex_get_metadata_def ex_release_def ex_release2_def ex_tree_def
        ex_odd_tree_def ex_revision_def ex_blob_release_def)
  have mb: "get_metadata ex_fuse ex_blob_release = Inr (ReleaseMeta ex_blob)"
    by (simp add: ex_fuse_def ex_get_metadata_def ex_release_def ex_release2_def ex_tree_def
        ex_odd_tree_def ex_blob_release_def)
  have "reaches_tree ex_fuse ex_revision ex_tree"
    by (rule reaches_tree.commit[OF _ m3]) (simp add: ex_revision_def)
  then have r: "reaches_tree ex_fuse ex_release2 ex_tree"
    by (rule reaches_tree.tag[OF _ m2, rotated]) (simp add: ex_release2_def)
  have c: "object_type ex_blob = CONTENT" by (simp add: ex_blob_def)
  then have e: "ends_in ex_fuse ex_blob ex_blob" by (simp add: ends_in.last)
  have rp: "get_relative_root_path ex_fuse x = ''../../''" for x
    by (simp add: ex_fuse_def)
  from Release_root_entry[OF m, of "''v1.0''" RDONLY_DIR] r
  have "\<exists>ys. Release_compute_entries ex_fuse (Release ''v1.0'' RDONLY_DIR ex_release)
           = Some (ys @ [FuseSymlinkEntry ''root''
                (Path_str [''../../'', ''archive/'' @ str_swhid ex_tree])], None)"
    unfolding rp by blast
  moreover from Release_root_entry[OF mb, of "''v0''" RDONLY_DIR] e c
  have "\<exists>ys. Release_compute_entries ex_fuse (Release ''v0'' RDONLY_DIR ex_blob_release)
           = Some (ys, None)"
    by blast
  ultimately show ?thesis using m r mb e c by blast
qed

section \<open>Properties of the snapshot listing\<close>

lemma quote_byte_alphabet: "set (quote_byte c) \<subseteq> set always_safe \<union> {CHR ''+'', CHR ''%''}"
proof -
  have "hex_digit k \<in> set always_safe" for k
  proof -
    have "k mod 16 < length ''0123456789ABCDEF''" by simp
    then have "hex_digit k \<in> set ''0123456789ABCDEF''"
      unfolding hex_digit_def by (rule nth_mem)
    then show ?thesis by (auto simp: always_safe_def)
  qed
  then show ?thesis by (auto simp: quote_byte_def)
qed

lemma quote_plus_alphabet: "set (quote_plus s) \<subseteq> set always_safe \<union> {CHR ''+'', CHR ''%''}"
  using quote_byte_alphabet by (auto simp: quote_plus_def)

lemma quote_plus_no_slash: "CHR ''/'' \<notin> set (quote_plus s)"
proof -
  have "CHR ''/'' \<notin> set always_safe \<union> {CHR ''+'', CHR ''%''}"
    by (simp add: always_safe_def)
  with quote_plus_alphabet show ?thesis by blast
qed

lemma ex_snapshot_listing:
  "Snapshot_compute_entries ex_fuse (Snapshot ''snp'' RDONLY_DIR ex_snapshot) =
     ([FuseSymlinkEntry ''feature%2Fx''
         ''../../archive/swh:1:rev:d012a7190fc1fd72ed48911e77ca97ba4521bccd'',
       FuseSymlinkEntry ''refs%2Ftags%2Fv1.0''
         ''../../archive/swh:1:rel:208f61cc7a5dbc9879ae6e5c2f95891e270f09ef''],
      None)"
  by (simp add: Snapshot_compute_entries_def ex_fuse_def ex_get_metadata_def ex_snapshot_def
      ex_tree_def ex_odd_tree_def ex_release_def ex_release2_def ex_blob_release_def
      ex_revision_def quote_plus_def quote_byte_def always_safe_def hex_digit_def
      Path_str_def str_swhid_def)

text \<open>
  C8. The listing of a snapshot yields one symlink per branch, in the order of the
  metadata: its name is the percent-encoded branch name and its target is the branch's
  identifier under \<open>archive/\<close>, below the root. An encoded name holds no slash (only
  letters, digits, \<open>_.-~\<close>, \<open>+\<close> and \<open>%\<close>), and \<open>feature/x\<close> becomes \<open>feature%2Fx\<close>.
\<close>

theorem Snapshot_branch_symlinks:
  assumes "get_metadata fs swhid = Inr (SnapshotMeta branches)"
  shows "Snapshot_compute_entries fs (Snapshot n m swhid) =
           (map (\<lambda>(b, t). FuseSymlinkEntry (quote_plus b)
                   (Path_str [get_relative_root_path fs (Snapshot n m swhid),
                      ''archive/'' @ str_swhid t])) branches, None)
       \<and> length (fst (Snapshot_compute_entries fs (Snapshot n m swhid))) = length branches
       \<and> (\<forall>e \<in> set (fst (Snapshot_compute_entries fs (Snapshot n m swhid))).
             CHR ''/'' \<notin> set (entry_name e)
             \<and> set (entry_name e) \<subseteq> set always_safe \<union> {CHR ''+'', CHR ''%''})
       \<and> quote_plus ''feature/x'' = ''feature%2Fx''"
proof -
  have eq: "Snapshot_compute_entries fs (Snapshot n m swhid) =
           (map (\<lambda>(b, t). FuseSymlinkEntry (quote_plus b)
                   (Path_str [get_relative_root_path fs (Snapshot n m swhid),
                      ''archive/'' @ str_swhid t])) branches, None)"
    using assms by (simp add: Snapshot_compute_entries_def)
  have names: "CHR ''/'' \<notin> set (entry_name e)
             \<and> set (entry_name e) \<subseteq> set always_safe \<union> {CHR ''+'', CHR ''%''}"
    if "e \<in> set (fst (Snapshot_compute_entries fs (Snapshot n m swhid)))" for e
  proof -
    from that obtain b where "entry_name e = quote_plus b"
      unfolding eq by auto
    then show ?thesis using quote_plus_no_slash quote_plus_alphabet by simp
  qed
  have fx: "quote_plus ''feature/x'' = ''feature%2Fx''"
    by (simp add: quote_plus_def quote_byte_def always_safe_def hex_digit_def)
  from eq names fx show ?thesis by simp
qed

theorem Snapshot_branch_symlinks_witness:
  "get_metadata ex_fuse ex_snapshot
     = Inr (SnapshotMeta [(''feature/x'', ex_revision), (''refs/tags/v1.0'', ex_release)])
   \<and> Snapshot_compute_entries ex_fuse (Snapshot ''snp'' RDONLY_DIR ex_snapshot) =
       ([FuseSymlinkEntry ''feature%2Fx''
           ''../../archive/swh:1:rev:d012a7190fc1fd72ed48911e77ca97ba4521bccd'',
         FuseSymlinkEntry ''refs%2Ftags%2Fv1.0''
           ''../../archive/swh:1:rel:208f61cc7a5dbc9879ae6e5c2f95891e270f09ef''],
        None)
   \<and> length (fst (Snapshot_compute_entries ex_fuse (Snapshot ''snp'' RDONLY_DIR ex_snapshot)))
       = 2"
proof -
  have m: "get_metadata ex_fuse ex_snapshot
     = Inr (SnapshotMeta [(''feature/x'', ex_revision), (''refs/tags/v1.0'', ex_release)])"
    by (simp add: ex_fuse_def ex_get_metadata_def ex_snapshot_def
      ex_tree_def ex_odd_tree_def ex_release_def ex_release2_def ex_blob_release_def
      ex_revision_def)
  from Snapshot_branch_symlinks[OF m, of "''snp''" RDONLY_DIR]
  have "length (fst (Snapshot_compute_entries ex_fuse (Snapshot ''snp'' RDONLY_DIR ex_snapshot)))
       = length [(''feature/x'', ex_revision), (''refs/tags/v1.0'', ex_release)]"
    by blast
  with m ex_snapshot_listing show ?thesis by simp
qed

section \<open>Properties of the by-date shards\<close>



lemma split_char_nonempty: "split_char c s \<noteq> []"
  by (induction s) (auto split: list.splits)

lemma length_split_char: "length (split_char c s) = count_char c s + 1"
  by (induction s) (auto simp: count_char_def split_char_nonempty split: list.splits)

lemma count_char_append: "count_char c (a @ b) = count_char c a + count_char c b"
  by (simp add: count_char_def)

lemma count_char_startswith:
  assumes "startswith s p"
  shows "count_char c p \<le> count_char c s"
proof -
  from assms have "s = p @ drop (length p) s"
    by (metis append_take_drop_id startswith_def)
  then have "count_char c s = count_char c p + count_char c (drop (length p) s)"
    by (metis count_char_append)
  then show ?thesis by simp
qed

lemma py_index_split_startswith:
  assumes "startswith nm pfx"
  shows "py_index (split_char c nm) (count_char c pfx) = Inr (split_char c nm ! count_char c pfx)"
  using count_char_startswith[OF assms, of c]
  by (simp add: py_index_def length_split_char)

lemma split_char_no_sep: "c \<notin> set s \<Longrightarrow> split_char c s = [s]"
  by (induction s) auto

lemma split_char_append:
  "c \<notin> set a \<Longrightarrow> split_char c (a @ c # b) = a # split_char c b"
  by (induction a) auto

lemma split_char_join:
  assumes "comps \<noteq> []" and "\<forall>x\<in>set comps. c \<notin> set x"
  shows "split_char c (join [c] comps) = comps"
  using assms
proof (induction comps)
  case Nil
  then show ?case by simp
next
  case (Cons x xs)
  show ?case
  proof (cases xs)
    case Nil
    with Cons.prems show ?thesis by (simp add: split_char_no_sep)
  next
    case (Cons y ys)
    with Cons.IH Cons.prems have "split_char c (join [c] (y # ys)) = y # ys" by simp
    with Cons Cons.prems show ?thesis by (simp add: split_char_append)
  qed
qed



lemma startswith_Nil [simp]: "startswith s []"
  by (simp add: startswith_def)

lemma startswith_append_same [simp]: "startswith (a @ s) (a @ p) = startswith s p"
  by (simp add: startswith_def)




lemma digit_char_digits: "digit_char n \<in> set ''0123456789''"
proof -
  have "n mod 10 < length ''0123456789''" by simp
  then show ?thesis unfolding digit_char_def by (rule nth_mem)
qed

lemma str_nat_digits: "set (str_nat n) \<subseteq> set ''0123456789''"
proof (induction n rule: str_nat.induct)
  case (1 n)
  show ?case
  proof (cases "n < 10")
    case True
    then show ?thesis using digit_char_digits[of n] by (subst str_nat.simps) simp
  next
    case False
    with 1 have "set (str_nat (n div 10)) \<subseteq> set ''0123456789''" by simp
    with False show ?thesis using digit_char_digits[of n] by (subst str_nat.simps) simp
  qed
qed

lemma format_0d_no_slash: "CHR ''/'' \<notin> set (format_0d w n)"
proof -
  have "CHR ''/'' \<notin> set (str_nat k)" for k
    using str_nat_digits[of k] by auto
  then show ?thesis by (auto simp: format_0d_def Let_def)
qed

lemma date_path_no_slash: "\<forall>x\<in>set (date_path dt). CHR ''/'' \<notin> set x"
  by (simp add: date_path_def format_0d_no_slash)

lemma date_name_join: "date_name dt = join ''/'' (date_path dt)"
  by (simp add: date_name_def date_path_def)

lemma split_date_name: "split_char CHR ''/'' (date_name dt) = date_path dt"
  unfolding date_name_join
  using split_char_join[of "date_path dt" "CHR ''/''"] date_path_no_slash[of dt]
  by (simp add: date_path_def)

lemma length_date_path [simp]: "length (date_path dt) = 3"
  by (simp add: date_path_def)

lemma ByDate_loop_result:
  assumes "revisions_cached fs xs"
  shows "ByDate_loop fs hs pfx xs (is_done, subdirs, nb) =
     (map (\<lambda>c. RevisionHistoryShardByDate c RDONLY_DIR hs (pfx @ c @ ''/''))
        (fresh subdirs (next_components pfx (cached_dates fs xs))),
      Inr (is_done \<and> all_cached fs xs,
           subdirs \<union> set (next_components pfx (cached_dates fs xs)),
           nb + length (cached_dates fs xs)))"
  using assms
proof (induction xs arbitrary: is_done subdirs nb)
  case Nil
  then show ?case by (simp add: cached_dates_def next_components_def all_cached_def)
next
  case (Cons s xs)
  from Cons.prems have rc: "revisions_cached fs xs"
    by (simp add: revisions_cached_def)
  note IH = Cons.IH[OF rc]
  show ?case
  proof (cases "cache_metadata_get fs s")
    case None
    then have "cached_dates fs (s # xs) = cached_dates fs xs"
      by (simp add: cached_dates_def)
    with None show ?thesis by (simp add: IH all_cached_def)
  next
    case (Some meta)
    with Cons.prems obtain d ps dt where meta: "meta = RevisionMeta d ps dt"
      by (auto simp: revisions_cached_def split: metadata.splits)
    have cd: "cached_dates fs (s # xs) = dt # cached_dates fs xs"
      using Some meta by (simp add: cached_dates_def)
    have ac: "all_cached fs (s # xs) = all_cached fs xs"
      using Some by (simp add: all_cached_def)
    have nf: "\<not> falsy meta" and nm: "ByDate_get_full_sharded_name meta = Inr (date_name dt)"
      using meta by (simp_all add: falsy_def ByDate_get_full_sharded_name_def)
    show ?thesis
    proof (cases "startswith (date_name dt) pfx")
      case False
      then have "next_components pfx (dt # cached_dates fs xs)
                 = next_components pfx (cached_dates fs xs)"
        by (simp add: next_components_def)
      with False Some nf nm show ?thesis by (simp add: IH ac cd)
    next
      case True
      let ?c = "date_path dt ! count_char CHR ''/'' pfx"
      have ix: "py_index (split_char CHR ''/'' (date_name dt)) (count_char CHR ''/'' pfx) = Inr ?c"
        using py_index_split_startswith[OF True, of "CHR ''/''"] by (simp add: split_date_name)
      have nc: "next_components pfx (dt # cached_dates fs xs)
                 = ?c # next_components pfx (cached_dates fs xs)"
        using True by (simp add: next_components_def)
      show ?thesis
      proof (cases "?c \<in> subdirs")
        case True
        with \<open>startswith (date_name dt) pfx\<close> Some nf nm ix show ?thesis
          by (auto simp: IH ac cd nc)
      next
        case False
        with \<open>startswith (date_name dt) pfx\<close> Some nf nm ix show ?thesis
          by (simp add: IH ac cd nc)
      qed
    qed
  qed
qed


lemma length_cached_dates:
  assumes "revisions_cached fs xs"
  shows "length (cached_dates fs xs) = length (filter (\<lambda>s. cache_metadata_get fs s \<noteq> None) xs)"
  using assms
  by (induction xs) (auto simp: cached_dates_def revisions_cached_def split: option.splits metadata.splits)

lemma ByDate_compute_entries_eq:
  assumes "get_history fs hs = Inr history" and "revisions_cached fs history"
  shows "ByDate_compute_entries fs (RevisionHistoryShardByDate n m hs pfx) =
     (map (\<lambda>c. RevisionHistoryShardByDate c RDONLY_DIR hs (pfx @ c @ ''/''))
        (fresh {} (next_components pfx (cached_dates fs history)))
      @ (if all_cached fs history then []
         else [StatusFile ''.status'' RDONLY_FILE
                 (length (filter (\<lambda>s. cache_metadata_get fs s \<noteq> None) history))
                 (length history)]),
      None)"
  using assms(1)
  by (simp add: ByDate_compute_entries_def ByDate_loop_result[OF assms(2)]
      length_cached_dates[OF assms(2)])


lemma distinct_concat_tagged:
  assumes "distinct (map t xs)"
    and "\<forall>x\<in>set xs. distinct (f x) \<and> (\<forall>y\<in>set (f x). tag y = t x)"
  shows "distinct (concat (map f xs))"
  using assms
proof (induction xs)
  case Nil
  then show ?case by simp
next
  case (Cons x xs)
  have "set (f x) \<inter> set (concat (map f xs)) = {}"
  proof (rule ccontr)
    assume "set (f x) \<inter> set (concat (map f xs)) \<noteq> {}"
    then obtain y x' where y: "y \<in> set (f x)" "x' \<in> set xs" "y \<in> set (f x')" by auto
    with Cons.prems(2) have "tag y = t x" "tag y = t x'" by auto
    then have "t x = t x'" by simp
    with y(2) have "t x \<in> t ` set xs" by blast
    with Cons.prems(1) show False by simp
  qed
  with Cons show ?case by simp
qed










lemma ex_by_date_listing:
  "ByDate_compute_entries ex_fuse2 (RevisionHistoryShardByDate ''1999'' RDONLY_DIR ex_revision ''1999/'')
   = ([StatusFile ''.status'' RDONLY_FILE 2 3], None)"
  by code_simp









text \<open>
  C10. For a by-date shard with any prefix: while a member of the history is not in the
  metadata cache, its listing ends with the \<open>.status\<close> file whose \<open>todo\<close> is the length
  of the whole history and whose \<open>done\<close> is the number of all members of the history
  that are in the cache, whatever the prefix of the shard; before it come shard
  directories only.
\<close>

theorem ByDate_status_counts_whole_history:
  assumes "get_history fs hs = Inr history" and "revisions_cached fs history"
    and "\<exists>s\<in>set history. cache_metadata_get fs s = None"
  shows "\<exists>dirs. ByDate_compute_entries fs (RevisionHistoryShardByDate n m hs pfx)
           = (dirs @ [StatusFile ''.status'' RDONLY_FILE
                        (length (filter (\<lambda>s. cache_metadata_get fs s \<noteq> None) history))
                        (length history)], None)
         \<and> (\<forall>e\<in>set dirs. \<exists>c. e = RevisionHistoryShardByDate c RDONLY_DIR hs (pfx @ c @ ''/''))"
proof -
  from assms(3) have "\<not> all_cached fs history"
    by (auto simp: all_cached_def list_all_iff)
  with ByDate_compute_entries_eq[OF assms(1,2), of n m pfx] show ?thesis by auto
qed

theorem ByDate_status_counts_whole_history_witness:
  "get_history ex_fuse2 ex_revision = Inr ex_history
   \<and> revisions_cached ex_fuse2 ex_history
   \<and> ex_rev3 \<in> set ex_history \<and> cache_metadata_get ex_fuse2 ex_rev3 = None
   \<and> length (filter (\<lambda>s. cache_metadata_get ex_fuse2 s \<noteq> None) ex_history) = 2
   \<and> length ex_history = 3
   \<and> ByDate_compute_entries ex_fuse2
         (RevisionHistoryShardByDate ''1999'' RDONLY_DIR ex_revision ''1999/'')
       = ([StatusFile ''.status'' RDONLY_FILE 2 3], None)"
proof -
  have h: "get_history ex_fuse2 ex_revision = Inr ex_history"
    by (simp add: ex_fuse2_def)
  have r: "revisions_cached ex_fuse2 ex_history"
    by code_simp
  have m: "ex_rev3 \<in> set ex_history" by (simp add: ex_history_def)
  have u: "cache_metadata_get ex_fuse2 ex_rev3 = None"
    by code_simp
  have c: "length (filter (\<lambda>s. cache_metadata_get ex_fuse2 s \<noteq> None) ex_history) = 2"
    by code_simp
  have l: "length ex_history = 3" by (simp add: ex_history_def)
  from m u have "\<exists>s\<in>set ex_history. cache_metadata_get ex_fuse2 s = None" by blast
  from ByDate_status_counts_whole_history[OF h r this, of "''1999''" RDONLY_DIR "''1999/''"]
  obtain dirs where "ByDate_compute_entries ex_fuse2
         (RevisionHistoryShardByDate ''1999'' RDONLY_DIR ex_revision ''1999/'')
       = (dirs @ [StatusFile ''.status'' RDONLY_FILE 2 3], None)"
    unfolding c l by blast
  moreover from this ex_by_date_listing have "dirs = []" by simp
  ultimately show ?thesis using h r m u c l by simp
qed

section \<open>Properties of the by-page shards\<close>

lemma PAGE_SIZE_pos: "0 < PAGE_SIZE"
  by (simp add: PAGE_SIZE_def)

lemma page_div_new:
  fixes k n :: nat
  assumes "0 < n" "0 < k" "k mod n = 0"
  shows "(k - 1) div n = k div n - 1" and "0 < k div n" and "(k div n) * n = k"
proof -
  from assms(3) show kq: "(k div n) * n = k" by (simp add: mod_eq_0_iff_dvd)
  with assms(2) show qpos: "0 < k div n" by (cases "k div n") auto
  show "(k - 1) div n = k div n - 1"
  proof (rule div_nat_eqI)
    have "n * (k div n - 1) = k - n" using kq qpos by (simp add: algebra_simps diff_mult_distrib2)
    then show "n * (k div n - 1) \<le> k - 1" using assms(1) by simp
    have "n * Suc (k div n - 1) = k" using kq qpos by (simp add: mult.commute)
    then show "k - 1 < n * Suc (k div n - 1)" using assms(2) by simp
  qed
qed

lemma page_div_same:
  fixes k n :: nat
  assumes "0 < n" "k mod n \<noteq> 0"
  shows "(k - 1) div n = k div n" and "(k div n) * n \<le> k" and "0 < k"
proof -
  from assms(2) show kpos: "0 < k" by (cases k) auto
  show "(k div n) * n \<le> k" by simp
  have decomp: "k = n * (k div n) + k mod n" by simp
  show "(k - 1) div n = k div n"
  proof (rule div_nat_eqI)
    from decomp assms(2) have "n * (k div n) < k"
      by (metis add.right_neutral nat_add_left_cancel_less neq0_conv)
    then show "n * (k div n) \<le> k - 1" by simp
    have "k mod n < n" using assms(1) by simp
    with decomp have "k < n * (k div n) + n" by linarith
    then show "k - 1 < n * Suc (k div n)" by simp
  qed
qed

lemma page_arith_new:
  assumes "0 < k" "k mod PAGE_SIZE = 0"
  shows "k - ((k - 1) div PAGE_SIZE) * PAGE_SIZE = PAGE_SIZE"
    and "k div PAGE_SIZE = Suc ((k - 1) div PAGE_SIZE)"
    and "(k div PAGE_SIZE) * PAGE_SIZE = k"
proof -
  note D = page_div_new[OF PAGE_SIZE_pos assms]
  show "(k div PAGE_SIZE) * PAGE_SIZE = k" by (rule D(3))
  show "k div PAGE_SIZE = Suc ((k - 1) div PAGE_SIZE)" using D(1,2) by simp
  have "(k div PAGE_SIZE - 1) * PAGE_SIZE = k - PAGE_SIZE"
    using D(2,3) by (simp add: diff_mult_distrib)
  moreover have "PAGE_SIZE \<le> k" using D(2,3)
    by (metis One_nat_def Suc_leI mult_le_mono1 nat_mult_1)
  ultimately show "k - ((k - 1) div PAGE_SIZE) * PAGE_SIZE = PAGE_SIZE"
    unfolding D(1) by simp
qed

lemma page_arith_same:
  assumes "k mod PAGE_SIZE \<noteq> 0"
  shows "k div PAGE_SIZE = (k - 1) div PAGE_SIZE"
    and "((k - 1) div PAGE_SIZE) * PAGE_SIZE \<le> k"
    and "0 < k"
  using page_div_same[OF PAGE_SIZE_pos assms] by simp_all

lemma by_page_step:
  assumes inv: "by_page_inv fs hs xs k st" and k: "k < length xs"
  shows "\<exists>st'. ByPage_loop fs hs k (xs ! k # rest) st = ByPage_loop fs hs (k + 1) rest st'
           \<and> by_page_inv fs hs xs (k + 1) st'"
proof (cases "k = 0")
  case True
  with inv have st: "st = (- 1, None, None, [], [], [])" by (simp add: by_page_inv_def)
  have tk: "take (Suc 0) xs = [xs ! 0]"
    using k True by (cases xs) auto
  show ?thesis
    unfolding st True
    by (simp add: by_page_inv_def page_entry_def page_symlink_def tk Let_def)
next
  case False
  define c where "c = (k - 1) div PAGE_SIZE"
  from inv False have st: "st = (int c, Some (page_entry hs c),
                     Some (get_relative_root_path fs (page_entry hs c)),
                     map (page_symlink fs hs c) (take (k - c * PAGE_SIZE) (drop (c * PAGE_SIZE) xs)),
                     map (page_entry hs) [0..<c],
                     map (page_set fs hs xs) [0..<c])"
    by (simp add: by_page_inv_def c_def Let_def)
  show ?thesis
  proof (cases "k mod PAGE_SIZE = 0")
    case True
    from False have kpos: "0 < k" by simp
    note A = page_arith_new[OF kpos True, folded c_def]
    define st' where "st' = (int (Suc c), Some (page_entry hs (Suc c)),
                     Some (get_relative_root_path fs (page_entry hs (Suc c))),
                     [page_symlink fs hs (Suc c) (xs ! k)],
                     map (page_entry hs) [0..<Suc c],
                     map (page_set fs hs xs) [0..<Suc c])"
    have full: "(page_entry hs c,
                 map (page_symlink fs hs c) (take (k - c * PAGE_SIZE) (drop (c * PAGE_SIZE) xs)))
                = page_set fs hs xs c"
      by (simp add: page_set_def A(1))
    have pe: "RevisionHistoryShardByPage (PAGE_FMT (1 + int c)) RDONLY_DIR hs = page_entry hs (Suc c)"
      by (simp add: page_entry_def)
    have eq: "ByPage_loop fs hs k (xs ! k # rest) st = ByPage_loop fs hs (k + 1) rest st'"
      unfolding st st'_def
      by (simp add: True Let_def pe full page_symlink_def add.commute)
    have kk: "Suc c * PAGE_SIZE = k" using A(2,3) by simp
    have tk: "take (Suc 0) (drop k xs) = [xs ! k]"
      using k by (simp add: take_Suc_conv_app_nth)
    have "(k + 1 - 1) div PAGE_SIZE = Suc c" using A(2) by simp
    moreover have "take (k + 1 - Suc c * PAGE_SIZE) (drop (Suc c * PAGE_SIZE) xs) = [xs ! k]"
      unfolding kk using tk by simp
    ultimately have "by_page_inv fs hs xs (k + 1) st'"
      unfolding st'_def by (simp add: by_page_inv_def Let_def del: mult_Suc)
    with eq show ?thesis by blast
  next
    case nz: False
    note A = page_arith_same[OF nz, folded c_def]
    define st' where "st' = (int c, Some (page_entry hs c),
                     Some (get_relative_root_path fs (page_entry hs c)),
                     map (page_symlink fs hs c)
                       (take (k - c * PAGE_SIZE) (drop (c * PAGE_SIZE) xs)) @
                     [page_symlink fs hs c (xs ! k)],
                     map (page_entry hs) [0..<c],
                     map (page_set fs hs xs) [0..<c])"
    have eq: "ByPage_loop fs hs k (xs ! k # rest) st = ByPage_loop fs hs (k + 1) rest st'"
      unfolding st st'_def
      by (simp add: nz Let_def page_symlink_def)
    have tk: "take (Suc k - c * PAGE_SIZE) (drop (c * PAGE_SIZE) xs)
              = take (k - c * PAGE_SIZE) (drop (c * PAGE_SIZE) xs) @ [xs ! k]"
    proof -
      have "Suc k - c * PAGE_SIZE = Suc (k - c * PAGE_SIZE)" using A(2) by simp
      moreover have "k - c * PAGE_SIZE < length (drop (c * PAGE_SIZE) xs)" using k A(2) by simp
      moreover have "drop (c * PAGE_SIZE) xs ! (k - c * PAGE_SIZE) = xs ! k" using k A(2) by simp
      ultimately show ?thesis by (simp add: take_Suc_conv_app_nth)
    qed
    have "(k + 1 - 1) div PAGE_SIZE = c" using A(1) by simp
    then have "by_page_inv fs hs xs (k + 1) st'"
      unfolding st'_def by (simp add: by_page_inv_def Let_def tk)
    with eq show ?thesis by blast
  qed
qed

lemma ByPage_loop_inv:
  assumes "by_page_inv fs hs xs k st" and "rest = drop k xs" and "k \<le> length xs"
  shows "\<exists>st'. ByPage_loop fs hs k rest st = Inr st' \<and> by_page_inv fs hs xs (length xs) st'"
  using assms
proof (induction rest arbitrary: k st)
  case Nil
  then have "k = length xs" by simp
  with Nil show ?case by simp
next
  case (Cons a rest)
  from Cons.prems(2) have k: "k < length xs"
    by (metis drop_all list.distinct(1) not_le)
  from Cons_nth_drop_Suc[OF k] Cons.prems(2) have "a # rest = xs ! k # drop (Suc k) xs"
    by simp
  then have a: "a = xs ! k" and rest: "rest = drop (k + 1) xs"
    by simp_all
  from by_page_step[OF Cons.prems(1) k, of rest] obtain st'
    where eq: "ByPage_loop fs hs k (xs ! k # rest) st = ByPage_loop fs hs (k + 1) rest st'"
      and inv: "by_page_inv fs hs xs (k + 1) st'"
    by blast
  from Cons.IH[OF inv rest] k show ?case
    unfolding a eq by simp
qed

lemma page_count_0: "page_count 0 = 0"
  by (simp add: page_count_def PAGE_SIZE_def)

lemma page_count_pos:
  assumes "0 < n"
  shows "page_count n = Suc ((n - 1) div PAGE_SIZE)"
proof -
  from assms have e: "n + PAGE_SIZE - 1 = (n - 1) + PAGE_SIZE" by arith
  have "((n - 1) + PAGE_SIZE) div PAGE_SIZE = Suc ((n - 1) div PAGE_SIZE)"
    using PAGE_SIZE_pos by (simp only: div_add_self2)
  then show ?thesis unfolding page_count_def e .
qed

lemma ByPage_fill_eq:
  "ByPage_fill_direntry_cache fs (RevisionHistoryShardByPage n m hs) xs =
     Inr (map (page_entry hs) [0..<page_count (length xs)],
          map (page_set fs hs xs) [0..<page_count (length xs)]
          @ [(RevisionHistoryShardByPage n m hs,
              map (page_entry hs) [0..<page_count (length xs)])])"
proof -
  have init: "by_page_inv fs hs xs 0 (- 1, None, None, [], [], [])"
    by (simp add: by_page_inv_def)
  from ByPage_loop_inv[OF init, of xs] obtain st'
    where loop: "ByPage_loop fs hs 0 xs (- 1, None, None, [], [], []) = Inr st'"
      and inv: "by_page_inv fs hs xs (length xs) st'"
    by auto
  show ?thesis
  proof (cases "length xs = 0")
    case True
    with inv have "st' = (- 1, None, None, [], [], [])" by (simp add: by_page_inv_def)
    with loop True show ?thesis
      by (simp add: ByPage_fill_direntry_cache_def page_count_0)
  next
    case False
    define c where "c = (length xs - 1) div PAGE_SIZE"
    from False have pc: "page_count (length xs) = Suc c"
      by (simp add: page_count_pos c_def)
    have "(length xs - 1) mod PAGE_SIZE < PAGE_SIZE" using PAGE_SIZE_pos by simp
    moreover have "length xs - 1 = c * PAGE_SIZE + (length xs - 1) mod PAGE_SIZE"
      by (simp add: c_def)
    ultimately have le: "length xs - c * PAGE_SIZE \<le> PAGE_SIZE" by linarith
    have last: "take (length xs - c * PAGE_SIZE) (drop (c * PAGE_SIZE) xs)
                = take PAGE_SIZE (drop (c * PAGE_SIZE) xs)"
      using le by simp
    from inv False have st': "st' = (int c, Some (page_entry hs c),
                     Some (get_relative_root_path fs (page_entry hs c)),
                     map (page_symlink fs hs c)
                       (take (length xs - c * PAGE_SIZE) (drop (c * PAGE_SIZE) xs)),
                     map (page_entry hs) [0..<c],
                     map (page_set fs hs xs) [0..<c])"
      by (simp add: by_page_inv_def c_def Let_def)
    show ?thesis
      unfolding pc
      by (simp add: ByPage_fill_direntry_cache_def loop st' last page_set_def)
  qed
qed

lemma concat_pages:
  "concat (map (\<lambda>i. take n (drop (i * n) xs)) [0..<k]) = take (k * n) xs"
proof (induction k)
  case 0
  then show ?case by simp
next
  case (Suc k)
  have "take (k * n) xs @ take n (drop (k * n) xs) = take (k * n + n) xs"
    by (simp add: take_add)
  with Suc show ?case by (simp add: add.commute)
qed

lemma page_count_covers: "n \<le> page_count n * PAGE_SIZE"
proof (cases "n = 0")
  case True
  then show ?thesis by simp
next
  case False
  then have pc: "page_count n = Suc ((n - 1) div PAGE_SIZE)" by (simp add: page_count_pos)
  have "(n - 1) mod PAGE_SIZE < PAGE_SIZE" using PAGE_SIZE_pos by simp
  moreover have "n - 1 = (n - 1) div PAGE_SIZE * PAGE_SIZE + (n - 1) mod PAGE_SIZE" by simp
  ultimately have "n - 1 < (n - 1) div PAGE_SIZE * PAGE_SIZE + PAGE_SIZE" by linarith
  then show ?thesis unfolding pc by simp
qed

lemma page_nonempty:
  assumes "i < page_count n"
  shows "i * PAGE_SIZE < n"
proof -
  from assms have pos: "0 < n" using page_count_0 by (cases "n = 0") auto
  with assms have "i \<le> (n - 1) div PAGE_SIZE" by (simp add: page_count_pos)
  then have "i * PAGE_SIZE \<le> (n - 1) div PAGE_SIZE * PAGE_SIZE" by (rule mult_le_mono1)
  also have "\<dots> \<le> n - 1" by simp
  finally show ?thesis using pos by simp
qed

lemma page_full:
  assumes "i + 1 < page_count n"
  shows "(i + 1) * PAGE_SIZE < n"
  using page_nonempty[OF assms] .

lemma names_page_set:
  "map entry_name (snd (page_set fs hs xs i))
   = map str_swhid (take PAGE_SIZE (drop (i * PAGE_SIZE) xs))"
  by (simp add: page_set_def page_symlink_def comp_def)

lemma names_pages:
  "map entry_name (concat (map snd (map (page_set fs hs xs) [0..<k])))
   = map str_swhid (take (k * PAGE_SIZE) xs)"
proof -
  have "map entry_name (concat (map snd (map (page_set fs hs xs) [0..<k])))
        = concat (map (\<lambda>i. map entry_name (snd (page_set fs hs xs i))) [0..<k])"
    by (simp add: map_concat comp_def)
  also have "\<dots> = concat (map (\<lambda>i. map str_swhid (take PAGE_SIZE (drop (i * PAGE_SIZE) xs))) [0..<k])"
    by (simp add: names_page_set)
  also have "\<dots> = map str_swhid (concat (map (\<lambda>i. take PAGE_SIZE (drop (i * PAGE_SIZE) xs)) [0..<k]))"
    by (simp add: map_concat comp_def)
  also have "\<dots> = map str_swhid (take (k * PAGE_SIZE) xs)"
    by (simp add: concat_pages)
  finally show ?thesis .
qed

lemma ex_by_page_fill:
  "ByPage_fill_direntry_cache ex_fuse2
     (RevisionHistoryShardByPage ''by-page'' RDONLY_DIR ex_revision) ex_history
   = Inr ([RevisionHistoryShardByPage ''000'' RDONLY_DIR ex_revision],
          [(RevisionHistoryShardByPage ''000'' RDONLY_DIR ex_revision,
            [FuseSymlinkEntry ''swh:1:rev:d012a7190fc1fd72ed48911e77ca97ba4521bccd''
               ''../../archive/swh:1:rev:d012a7190fc1fd72ed48911e77ca97ba4521bccd'',
             FuseSymlinkEntry ''swh:1:rev:a1b2c3d4e5f60718293a4b5c6d7e8f9001122334''
               ''../../archive/swh:1:rev:a1b2c3d4e5f60718293a4b5c6d7e8f9001122334'',
             FuseSymlinkEntry ''swh:1:rev:a1f0e9d8c7b6a5948372615049382716a5b4c3d2''
               ''../../archive/swh:1:rev:a1f0e9d8c7b6a5948372615049382716a5b4c3d2'']),
           (RevisionHistoryShardByPage ''by-page'' RDONLY_DIR ex_revision,
            [RevisionHistoryShardByPage ''000'' RDONLY_DIR ex_revision])])"
  by code_simp

text \<open>
  C3. For every history, the empty one included, \<^verbatim>\<open>fill_direntry_cache\<close> of a by-page node
  returns pages that cut the history into consecutive slices: there are
  \<open>\<lceil>N / PAGE_SIZE\<rceil>\<close> pages; the page of index \<open>i\<close> is a directory named by \<open>i\<close> written with
  three digits, padded with zeros, and its children, stored in the directory-entry
  cache, are the symlinks of the members \<open>i * PAGE_SIZE\<close> to \<open>(i + 1) * PAGE_SIZE - 1\<close> in
  the order of the history, named by their identifiers; every page holds at least one
  and at most \<open>PAGE_SIZE\<close> members and every page but the last holds exactly \<open>PAGE_SIZE\<close>;
  the children of all pages, page after page, are the members of the history in its
  order, so their number is N.
\<close>

theorem ByPage_partition:
  "\<exists>pages sets.
     ByPage_fill_direntry_cache fs (RevisionHistoryShardByPage n m hs) swhids
       = Inr (pages, sets @ [(RevisionHistoryShardByPage n m hs, pages)])
   \<and> map fst sets = pages
   \<and> length pages = (length swhids + PAGE_SIZE - 1) div PAGE_SIZE
   \<and> (\<forall>i<length pages.
         pages ! i = RevisionHistoryShardByPage (PAGE_FMT (int i)) RDONLY_DIR hs
       \<and> PAGE_FMT (int i) = replicate (3 - length (str_nat i)) CHR ''0'' @ str_nat i
       \<and> snd (sets ! i) =
           map (\<lambda>s. FuseSymlinkEntry (str_swhid s)
                  (Path_str [get_relative_root_path fs (pages ! i), ''archive/'' @ str_swhid s]))
             (take PAGE_SIZE (drop (i * PAGE_SIZE) swhids))
       \<and> 0 < length (snd (sets ! i)) \<and> length (snd (sets ! i)) \<le> PAGE_SIZE
       \<and> (i + 1 < length pages \<longrightarrow> length (snd (sets ! i)) = PAGE_SIZE))
   \<and> map entry_name (concat (map snd sets)) = map str_swhid swhids
   \<and> length (concat (map snd sets)) = length swhids"
proof -
  let ?np = "page_count (length swhids)"
  let ?pages = "map (page_entry hs) [0..<?np]"
  let ?sets = "map (page_set fs hs swhids) [0..<?np]"
  have fill: "ByPage_fill_direntry_cache fs (RevisionHistoryShardByPage n m hs) swhids
       = Inr (?pages, ?sets @ [(RevisionHistoryShardByPage n m hs, ?pages)])"
    by (rule ByPage_fill_eq)
  have fsts: "map fst ?sets = ?pages"
    by (simp add: page_set_def comp_def)
  have len: "length ?pages = (length swhids + PAGE_SIZE - 1) div PAGE_SIZE"
    by (simp add: page_count_def)
  have names: "map entry_name (concat (map snd ?sets)) = map str_swhid swhids"
    unfolding names_pages using page_count_covers[of "length swhids"] by simp
  from arg_cong[OF names, of length] have total: "length (concat (map snd ?sets)) = length swhids"
    by (simp only: length_map)
  have each: "?pages ! i = RevisionHistoryShardByPage (PAGE_FMT (int i)) RDONLY_DIR hs
       \<and> PAGE_FMT (int i) = replicate (3 - length (str_nat i)) CHR ''0'' @ str_nat i
       \<and> snd (?sets ! i) =
           map (\<lambda>s. FuseSymlinkEntry (str_swhid s)
                  (Path_str [get_relative_root_path fs (?pages ! i), ''archive/'' @ str_swhid s]))
             (take PAGE_SIZE (drop (i * PAGE_SIZE) swhids))
       \<and> 0 < length (snd (?sets ! i)) \<and> length (snd (?sets ! i)) \<le> PAGE_SIZE
       \<and> (i + 1 < length ?pages \<longrightarrow> length (snd (?sets ! i)) = PAGE_SIZE)"
    if "i < length ?pages" for i
  proof -
    from that have i: "i < ?np" by simp
    from page_nonempty[OF i] have ne: "i * PAGE_SIZE < length swhids" .
    have p: "?pages ! i = page_entry hs i" using i by simp
    have s: "?sets ! i = page_set fs hs swhids i" using i by simp
    have l: "length (snd (page_set fs hs swhids i)) = min (length swhids - i * PAGE_SIZE) PAGE_SIZE"
      by (simp add: page_set_def)
    have full: "length (snd (page_set fs hs swhids i)) = PAGE_SIZE" if "i + 1 < ?np"
    proof -
      from page_full[OF that] have "i * PAGE_SIZE + PAGE_SIZE < length swhids" by simp
      then show ?thesis unfolding l by simp
    qed
    show ?thesis
      unfolding p s
      using ne PAGE_SIZE_pos full
      by (simp add: l page_entry_def page_set_def page_symlink_def PAGE_FMT_def format_0d_def
          Let_def)
  qed
  from fill fsts len names total each show ?thesis by blast
qed

theorem ByPage_partition_witness:
  "length ex_history = 3
   \<and> (\<exists>pages sets.
         ByPage_fill_direntry_cache ex_fuse2
           (RevisionHistoryShardByPage ''by-page'' RDONLY_DIR ex_revision) ex_history
          = Inr (pages, sets @ [(RevisionHistoryShardByPage ''by-page'' RDONLY_DIR ex_revision, pages)])
       \<and> pages = [RevisionHistoryShardByPage ''000'' RDONLY_DIR ex_revision]
       \<and> map entry_name (concat (map snd sets)) = map str_swhid ex_history
       \<and> length (concat (map snd sets)) = 3)"
proof -
  have len: "length ex_history = 3" by (simp add: ex_history_def)
  from ByPage_partition[of ex_fuse2 "''by-page''" RDONLY_DIR ex_revision ex_history]
  obtain pages sets where
    f: "ByPage_fill_direntry_cache ex_fuse2
           (RevisionHistoryShardByPage ''by-page'' RDONLY_DIR ex_revision) ex_history
          = Inr (pages, sets @ [(RevisionHistoryShardByPage ''by-page'' RDONLY_DIR ex_revision, pages)])"
    and n: "map entry_name (concat (map snd sets)) = map str_swhid ex_history"
    and l: "length (concat (map snd sets)) = length ex_history"
    by (elim exE conjE)
  from f have p: "pages = [RevisionHistoryShardByPage ''000'' RDONLY_DIR ex_revision]"
    unfolding ex_by_page_fill by simp
  from f p n l len show ?thesis by auto
qed

section \<open>Properties of the by-hash shards\<close>

lemma py_slice_nat:
  "py_slice xs (int a) (int a + int l) = take l (drop a xs)"
proof (cases "a \<le> length xs")
  case True
  then have lo: "(if int a < 0 then max 0 (int (length xs) + int a) else min (int a) (int (length xs))) = int a"
    by simp
  have hi: "(if int a + int l < 0 then max 0 (int (length xs) + (int a + int l))
             else min (int a + int l) (int (length xs))) = int (min (a + l) (length xs))"
    by simp
  have "nat (int (min (a + l) (length xs)) - int a) = min (a + l) (length xs) - a"
    by simp
  also have "\<dots> = min l (length xs - a)" using True by simp
  finally have n: "nat (int (min (a + l) (length xs)) - int a) = min l (length (drop a xs))"
    by simp
  show ?thesis
    unfolding py_slice_def Let_def lo hi n by (simp add: min_def)
next
  case False
  then have lo: "(if int a < 0 then max 0 (int (length xs) + int a) else min (int a) (int (length xs)))
                 = int (length xs)"
    by simp
  from False have "drop a xs = []" by simp
  then show ?thesis
    unfolding py_slice_def Let_def lo by simp
qed

lemma py_slice_nonneg:
  assumes "0 \<le> l"
  shows "py_slice xs (int a) (int a + l) = take (nat l) (drop a xs)"
proof -
  from assms obtain l' where l: "l = int l'" by (metis nonneg_int_cases)
  show ?thesis unfolding l by (simp only: py_slice_nat nat_int)
qed

lemma py_slice_part:
  assumes "0 \<le> sharding_length fs"
  shows "py_slice (object_id s) (int i * sharding_length fs) ((int i + 1) * sharding_length fs)
         = hash_part fs i s"
proof -
  from assms obtain l where l: "sharding_length fs = int l" by (metis nonneg_int_cases)
  have a: "int i * int l = int (i * l)" by simp
  have b: "(int i + 1) * int l = int (i * l) + int l" by (simp add: algebra_simps)
  show ?thesis
    unfolding hash_part_def l a b by (simp only: py_slice_nat nat_int)
qed

lemma join_snoc: "join ''/'' (ps @ [x]) = concat (map (\<lambda>p. p @ ''/'') ps) @ x"
proof (induction ps)
  case Nil
  then show ?case by simp
next
  case (Cons p ps)
  then show ?case by (cases ps) simp_all
qed

lemma digest_chars:
  assumes "is_digest h" and "c \<notin> set ''0123456789abcdef''"
  shows "c \<notin> set h"
proof
  assume "c \<in> set h"
  with assms(1) have "c \<in> set ''0123456789abcdef''"
    unfolding is_digest_def list_all_iff by blast
  with assms(2) show False by blast
qed

lemma digest_no_slash: "is_digest h \<Longrightarrow> CHR ''/'' \<notin> set h"
  by (erule digest_chars) simp

lemma digest_no_dot: "is_digest h \<Longrightarrow> CHR ''.'' \<notin> set h"
  by (erule digest_chars) simp

lemma hash_part_subset: "set (hash_part fs i s) \<subseteq> set (object_id s)"
proof -
  have "set (hash_part fs i s) \<subseteq> set (drop (i * nat (sharding_length fs)) (object_id s))"
    unfolding hash_part_def by (rule set_take_subset)
  also have "\<dots> \<subseteq> set (object_id s)" by (rule set_drop_subset)
  finally show ?thesis .
qed

lemma hash_part_no_slash: "is_digest (object_id s) \<Longrightarrow> CHR ''/'' \<notin> set (hash_part fs i s)"
  using hash_part_subset digest_no_slash by blast

lemma hash_part_not_dot:
  assumes "is_digest (object_id s)"
  shows "hash_part fs i s \<noteq> ''.''"
proof
  assume "hash_part fs i s = ''.''"
  then have "CHR ''.'' \<in> set (hash_part fs i s)" by simp
  with hash_part_subset have "CHR ''.'' \<in> set (object_id s)" by blast
  with digest_no_dot[OF assms] show False by simp
qed

lemma length_hash_part:
  assumes "is_digest (object_id s)" and "(i + 1) * nat (sharding_length fs) \<le> 40"
  shows "length (hash_part fs i s) = nat (sharding_length fs)"
  using assms by (simp add: hash_part_def is_digest_def)

lemma str_swhid_no_slash:
  assumes "is_digest (object_id s)"
  shows "CHR ''/'' \<notin> set (str_swhid s)"
proof -
  have "CHR ''/'' \<notin> set (object_type_tag t)" for t by (cases t) simp_all
  with digest_no_slash[OF assms] show ?thesis by (simp add: str_swhid_def)
qed

lemma str_swhid_nontrivial: "str_swhid s \<noteq> []" "str_swhid s \<noteq> ''.''"
  by (simp_all add: str_swhid_def)

lemma concat_split_no_sep:
  "\<forall>x\<in>set xs. c \<notin> set x \<Longrightarrow> concat (map (split_char c) xs) = xs"
  by (induction xs) (simp_all add: split_char_no_sep)

lemma shard_prefix_parts:
  "concat (map (\<lambda>p. p @ ''/'') (hash_parts fs s)) = shard_prefix fs (nat (sharding_depth fs)) s"
  by (simp add: hash_parts_def shard_prefix_def comp_def)

lemma ByHash_name:
  assumes D: "0 < sharding_depth fs" and L: "0 \<le> sharding_length fs"
    and DL: "nat (sharding_depth fs) * nat (sharding_length fs) \<le> 40"
    and dg: "is_digest (object_id s)"
  shows "ByHash_get_full_sharded_name fs s =
           (if sharding_length fs = 0 then str_swhid s
            else shard_prefix fs (nat (sharding_depth fs)) s @ str_swhid s)"
proof -
  have parts: "map (\<lambda>i. py_slice (object_id s) (int i * sharding_length fs)
                                  ((int i + 1) * sharding_length fs))
                       [0..<nat (sharding_depth fs)] = hash_parts fs s"
    by (simp add: hash_parts_def py_slice_part[OF L])
  have nosl: "\<forall>x\<in>set (hash_parts fs s @ [str_swhid s]). CHR ''/'' \<notin> set x"
    using hash_part_no_slash[OF dg] str_swhid_no_slash[OF dg] by (auto simp: hash_parts_def)
  have name: "ByHash_get_full_sharded_name fs s =
     (let comps = filter (\<lambda>c. c \<noteq> [] \<and> c \<noteq> ''.'') (hash_parts fs s @ [str_swhid s])
      in if comps = [] then ''.'' else join ''/'' comps)"
    using D unfolding ByHash_get_full_sharded_name_def Path_str_def Let_def parts
      concat_split_no_sep[OF nosl]
    by simp
  show ?thesis
  proof (cases "sharding_length fs = 0")
    case True
    then have "\<forall>x\<in>set (hash_parts fs s). x = []"
      by (simp add: hash_parts_def hash_part_def)
    then have "filter (\<lambda>c. c \<noteq> [] \<and> c \<noteq> ''.'') (hash_parts fs s) = []"
      by (simp add: filter_empty_conv)
    with True show ?thesis
      unfolding name by (simp add: str_swhid_nontrivial)
  next
    case False
    with L have Lpos: "0 < nat (sharding_length fs)" by simp
    have keep: "x \<noteq> [] \<and> x \<noteq> ''.''" if "x \<in> set (hash_parts fs s)" for x
    proof -
      from that obtain i where i: "i < nat (sharding_depth fs)" and x: "x = hash_part fs i s"
        by (auto simp: hash_parts_def)
      from i have "(i + 1) * nat (sharding_length fs) \<le> nat (sharding_depth fs) * nat (sharding_length fs)"
        by (intro mult_le_mono1) simp
      with DL have "(i + 1) * nat (sharding_length fs) \<le> 40" by simp
      from length_hash_part[OF dg this] Lpos have "x \<noteq> []" unfolding x by auto
      with hash_part_not_dot[OF dg] x show ?thesis by simp
    qed
    then have "filter (\<lambda>c. c \<noteq> [] \<and> c \<noteq> ''.'') (hash_parts fs s) = hash_parts fs s"
      by (simp add: filter_id_conv)
    with False show ?thesis
      unfolding name
      by (simp add: str_swhid_nontrivial join_snoc shard_prefix_parts del: join.simps)
  qed
qed

lemma shard_prefix_Suc: "shard_prefix fs (Suc d) s = shard_prefix fs d s @ hash_part fs d s @ ''/''"
  by (simp add: shard_prefix_def)

lemma shard_prefix_split:
  assumes "d < n"
  shows "\<exists>rest. shard_prefix fs n s = shard_prefix fs d s @ hash_part fs d s @ ''/'' @ rest"
proof -
  from assms have "[0..<n] = [0..<d] @ d # [Suc d..<n]"
    by (metis le_add_diff_inverse less_imp_le_nat upt_add_eq_append upt_conv_Cons zero_le)
  then show ?thesis by (simp add: shard_prefix_def)
qed

lemma count_char_shard_prefix:
  assumes "is_digest (object_id s)"
  shows "count_char CHR ''/'' (shard_prefix fs d s) = d"
proof (induction d)
  case 0
  then show ?case by (simp add: shard_prefix_def count_char_def)
next
  case (Suc d)
  have "filter (\<lambda>x. x = CHR ''/'') (hash_part fs d s) = []"
    using hash_part_no_slash[OF assms, of fs d] by (auto simp: filter_empty_conv)
  with Suc show ?case by (simp add: shard_prefix_Suc count_char_def)
qed

lemma ByHash_next_prefix:
  assumes D: "0 \<le> sharding_depth fs" and L: "0 \<le> sharding_length fs"
    and DL: "nat (sharding_depth fs) * nat (sharding_length fs) \<le> 40"
    and dg: "is_digest (object_id s)"
    and d: "d < nat (sharding_depth fs)"
    and pfx: "pfx = shard_prefix fs d s"
  shows "py_slice (ByHash_get_full_sharded_name fs s) (int (length pfx))
           (int (length pfx) + sharding_length fs) = hash_part fs d s"
proof -
  from d D have Dpos: "0 < sharding_depth fs" by simp
  note name = ByHash_name[OF Dpos L DL dg]
  show ?thesis
  proof (cases "sharding_length fs = 0")
    case True
    have "py_slice (ByHash_get_full_sharded_name fs s) (int (length pfx)) (int (length pfx) + 0)
          = take (nat 0) (drop (length pfx) (ByHash_get_full_sharded_name fs s))"
      by (rule py_slice_nonneg) simp
    with True show ?thesis by (simp add: hash_part_def)
  next
    case False
    from shard_prefix_split[OF d] obtain rest
      where sp: "shard_prefix fs (nat (sharding_depth fs)) s
                 = shard_prefix fs d s @ hash_part fs d s @ ''/'' @ rest"
      by blast
    from d have "(d + 1) * nat (sharding_length fs) \<le> nat (sharding_depth fs) * nat (sharding_length fs)"
      by (intro mult_le_mono1) simp
    with DL have "(d + 1) * nat (sharding_length fs) \<le> 40" by simp
    from length_hash_part[OF dg this] have len: "length (hash_part fs d s) = nat (sharding_length fs)" .
    have "ByHash_get_full_sharded_name fs s
          = pfx @ hash_part fs d s @ (''/'' @ rest @ str_swhid s)"
      using False by (simp add: name sp pfx)
    then have "take (nat (sharding_length fs)) (drop (length pfx) (ByHash_get_full_sharded_name fs s))
               = hash_part fs d s"
      using len by simp
    then show ?thesis by (simp add: py_slice_nonneg[OF L])
  qed
qed

lemma setdefault_append_keys:
  "map fst (setdefault_append g k v) = (if k \<in> fst ` set g then map fst g else map fst g @ [k])"
  by (induction g) (auto split: if_splits)

lemma setdefault_append_mset:
  "mset (concat (map snd (setdefault_append g k v))) = mset (concat (map snd g)) + {#v#}"
  by (induction g) auto

lemma setdefault_append_set:
  assumes "(k', vs) \<in> set (setdefault_append g k v)"
  shows "(k', vs) \<in> set g \<or> (k' = k \<and> (vs = [v] \<or> (\<exists>ws. (k, ws) \<in> set g \<and> vs = ws @ [v])))"
  using assms by (induction g) (auto split: if_splits)

lemma group_keys_distinct:
  "distinct (map fst g) \<Longrightarrow> distinct (map fst (foldl (\<lambda>d x. setdefault_append d (key x) x) g xs))"
proof (induction xs arbitrary: g)
  case Nil
  then show ?case by simp
next
  case (Cons x xs)
  from Cons.prems have "distinct (map fst (setdefault_append g (key x) x))"
    by (simp add: setdefault_append_keys)
  from Cons.IH[OF this] show ?case by simp
qed

lemma group_mset:
  "mset (concat (map snd (foldl (\<lambda>d x. setdefault_append d (key x) x) g xs)))
   = mset (concat (map snd g)) + mset xs"
  by (induction xs arbitrary: g) (simp_all add: setdefault_append_mset)

lemma group_members:
  assumes "\<forall>(k, vs)\<in>set g. vs \<noteq> [] \<and> (\<forall>v\<in>set vs. key v = k \<and> P v)"
    and "\<forall>x\<in>set xs. P x"
  shows "\<forall>(k, vs)\<in>set (foldl (\<lambda>d x. setdefault_append d (key x) x) g xs).
           vs \<noteq> [] \<and> (\<forall>v\<in>set vs. key v = k \<and> P v)"
  using assms
proof (induction xs arbitrary: g)
  case Nil
  then show ?case by simp
next
  case (Cons x xs)
  have "\<forall>(k, vs)\<in>set (setdefault_append g (key x) x). vs \<noteq> [] \<and> (\<forall>v\<in>set vs. key v = k \<and> P v)"
  proof (intro ballI, clarify)
    fix k vs assume "(k, vs) \<in> set (setdefault_append g (key x) x)"
    from setdefault_append_set[OF this] Cons.prems
    show "vs \<noteq> [] \<and> (\<forall>v\<in>set vs. key v = k \<and> P v)" by fastforce
  qed
  moreover from Cons.prems(2) have "\<forall>x\<in>set xs. P x" by simp
  ultimately show ?case using Cons.IH by simp
qed

lemma those_map_Some:
  "\<forall>x\<in>set xs. f x = Some (h x) \<Longrightarrow> those (map f xs) = Some (map h xs)"
  by (induction xs) simp_all

lemma mset_concat_map:
  "\<forall>x\<in>set xs. mset (F x) = mset (map p (G x))
   \<Longrightarrow> mset (concat (map F xs)) = mset (map p (concat (map G xs)))"
  by (induction xs) simp_all

lemma leaf_names_concat: "leaf_names (concat xss) = concat (map leaf_names xss)"
  by (induction xss) (simp_all add: leaf_names_def)

lemma length_hash_parts [simp]: "length (hash_parts fs s) = nat (sharding_depth fs)"
  by (simp add: hash_parts_def)

lemma walk_leaves:
  assumes "C self = Some (map (leaf_entry fs self) swhids)"
  shows "ByHash_walk (Suc fuel) C anc self
         = Some (map (\<lambda>s. (anc, leaf_entry fs self s)) swhids)"
proof -
  let ?f = "\<lambda>c. case c of
                RevisionHistoryShardByHash nm _ _ _ \<Rightarrow> ByHash_walk fuel C (anc @ [nm]) c
              | _ \<Rightarrow> Some [(anc, c)]"
  have "\<forall>s\<in>set swhids. (?f \<circ> leaf_entry fs self) s = Some [(anc, leaf_entry fs self s)]"
    by (simp add: leaf_entry_def)
  then have "those (map (?f \<circ> leaf_entry fs self) swhids)
             = Some (map (\<lambda>s. [(anc, leaf_entry fs self s)]) swhids)"
    by (rule those_map_Some)
  moreover have "concat (map (\<lambda>s. [(anc, leaf_entry fs self s)]) swhids)
                 = map (\<lambda>s. (anc, leaf_entry fs self s)) swhids"
    by (induction swhids) simp_all
  ultimately show ?thesis using assms by simp
qed

lemma fill_leaves:
  assumes "int (count_char CHR ''/'' pfx) = sharding_depth fs"
  shows "ByHash_fill_direntry_cache (Suc fuel) fs nm md hs pfx swhids
         = Some (map (leaf_entry fs (RevisionHistoryShardByHash nm md hs pfx)) swhids,
                 [(RevisionHistoryShardByHash nm md hs pfx,
                   map (leaf_entry fs (RevisionHistoryShardByHash nm md hs pfx)) swhids)])"
  using assms by (simp add: Let_def leaf_entry_def)

lemma node_result_leaves:
  assumes "d = nat (sharding_depth fs)"
  shows "node_result fs (Suc fuel) d hs self swhids (map (leaf_entry fs self) swhids) []"
proof -
  have "\<exists>ls. ByHash_walk (Suc fuel) C anc self = Some ls
               \<and> mset (leaf_names ls)
                   = mset (map (\<lambda>s. (anc @ drop d (hash_parts fs s), str_swhid s)) swhids)
               \<and> list_all (\<lambda>(a, e). is_symlink e) ls"
    if "holds_sets C ([] @ [(self, map (leaf_entry fs self) swhids)])" for C anc
  proof -
    from that have "C self = Some (map (leaf_entry fs self) swhids)"
      by (simp add: holds_sets_def)
    from walk_leaves[of C self fs swhids, OF this] have w: "ByHash_walk (Suc fuel) C anc self
         = Some (map (\<lambda>s. (anc, leaf_entry fs self s)) swhids)" .
    have n: "leaf_names (map (\<lambda>s. (anc, leaf_entry fs self s)) swhids)
          = map (\<lambda>s. (anc @ drop d (hash_parts fs s), str_swhid s)) swhids"
      using assms by (simp add: leaf_names_def leaf_entry_def comp_def)
    have s: "list_all (\<lambda>(a, e). is_symlink e) (map (\<lambda>s. (anc, leaf_entry fs self s)) swhids)"
      by (simp add: list_all_iff is_symlink_def leaf_entry_def)
    from w n s show ?thesis by simp
  qed
  then show ?thesis by (simp add: node_result_def)
qed

lemma fill_inner_unfold:
  assumes "int (count_char CHR ''/'' pfx) \<noteq> sharding_depth fs"
  shows "ByHash_fill_direntry_cache (Suc fuel) fs nm md hs pfx swhids =
     (case those (map (\<lambda>(subdir, subentries).
                     map_option (\<lambda>(_, sets). (shard_child hs pfx subdir, sets))
                       (ByHash_fill_direntry_cache fuel fs subdir RDONLY_DIR hs
                          (pfx @ subdir @ ''/'') subentries))
                   (shard_groups fs pfx swhids)) of
        None \<Rightarrow> None
      | Some rs \<Rightarrow>
          Some (map fst rs,
                concat (map snd rs) @ [(RevisionHistoryShardByHash nm md hs pfx, map fst rs)]))"
  using assms
  unfolding ByHash_fill_direntry_cache.simps Let_def shard_child_def shard_groups_def shard_key_def
  by simp

lemma shard_groups_facts:
  shows "distinct (map fst (shard_groups fs pfx swhids))"
    and "mset (concat (map snd (shard_groups fs pfx swhids))) = mset swhids"
    and "\<forall>(k, vs)\<in>set (shard_groups fs pfx swhids).
           vs \<noteq> [] \<and> (\<forall>v\<in>set vs. shard_key fs pfx v = k \<and> v \<in> set swhids)"
proof -
  show "distinct (map fst (shard_groups fs pfx swhids))"
    unfolding shard_groups_def by (rule group_keys_distinct) simp
  show "mset (concat (map snd (shard_groups fs pfx swhids))) = mset swhids"
    unfolding shard_groups_def by (simp add: group_mset)
  show "\<forall>(k, vs)\<in>set (shard_groups fs pfx swhids).
           vs \<noteq> [] \<and> (\<forall>v\<in>set vs. shard_key fs pfx v = k \<and> v \<in> set swhids)"
    unfolding shard_groups_def
    by (rule group_members[where P = "\<lambda>v. v \<in> set swhids"]) simp_all
qed

lemma walk_inner:
  assumes self: "C self = Some (map (\<lambda>p. shard_child hs pfx (fst p)) g)"
    and sub: "\<forall>p\<in>set g. ByHash_walk fuel C (anc @ [fst p]) (shard_child hs pfx (fst p)) = Some (lsf p)"
  shows "ByHash_walk (Suc fuel) C anc self = Some (concat (map lsf g))"
proof -
  let ?f = "\<lambda>c. case c of
                RevisionHistoryShardByHash nm _ _ _ \<Rightarrow> ByHash_walk fuel C (anc @ [nm]) c
              | _ \<Rightarrow> Some [(anc, c)]"
  have "\<forall>p\<in>set g. (?f \<circ> (\<lambda>p. shard_child hs pfx (fst p))) p = Some (lsf p)"
    using sub by (simp add: shard_child_def)
  then have "those (map (?f \<circ> (\<lambda>p. shard_child hs pfx (fst p))) g) = Some (map lsf g)"
    by (rule those_map_Some)
  then show ?thesis using self by simp
qed

lemma holds_sets_append: "holds_sets C (a @ b) \<longleftrightarrow> holds_sets C a \<and> holds_sets C b"
  by (simp add: holds_sets_def)

lemma holds_sets_concat:
  "holds_sets C (concat xss) \<longleftrightarrow> (\<forall>xs\<in>set xss. holds_sets C xs)"
  by (induction xss) (auto simp: holds_sets_def)

lemma fill_inner:
  assumes ok: "sharding_ok fs"
    and dg: "\<forall>s\<in>set swhids. is_digest (object_id s)"
    and d: "d < nat (sharding_depth fs)"
    and cnt: "count_char CHR ''/'' pfx = d"
    and sp: "\<forall>s\<in>set swhids. shard_prefix fs d s = pfx"
    and IH: "\<And>nm' md' pfx' swhids'.
        \<lbrakk>\<forall>s\<in>set swhids'. is_digest (object_id s); count_char CHR ''/'' pfx' = Suc d;
         \<forall>s\<in>set swhids'. shard_prefix fs (Suc d) s = pfx'\<rbrakk>
        \<Longrightarrow> \<exists>children sets.
              ByHash_fill_direntry_cache fuel fs nm' md' hs pfx' swhids'
                = Some (children, sets @ [(RevisionHistoryShardByHash nm' md' hs pfx', children)])
              \<and> node_result fs fuel (Suc d) hs (RevisionHistoryShardByHash nm' md' hs pfx')
                    swhids' children sets"
  shows "\<exists>children sets.
           ByHash_fill_direntry_cache (Suc fuel) fs nm md hs pfx swhids
             = Some (children, sets @ [(RevisionHistoryShardByHash nm md hs pfx, children)])
           \<and> node_result fs (Suc fuel) d hs (RevisionHistoryShardByHash nm md hs pfx)
                 swhids children sets"
proof -
  let ?self = "RevisionHistoryShardByHash nm md hs pfx"
  let ?L = "nat (sharding_length fs)"
  let ?g = "shard_groups fs pfx swhids"
  from ok have D0: "0 \<le> sharding_depth fs" and L0: "0 \<le> sharding_length fs"
    and DL: "nat (sharding_depth fs) * ?L \<le> 40"
    by (simp_all add: sharding_ok_def)
  note G = shard_groups_facts[of fs pfx swhids]
  have key: "shard_key fs pfx s = hash_part fs d s" if "s \<in> set swhids" for s
  proof -
    from that dg have a: "is_digest (object_id s)" by blast
    from that sp have b: "pfx = shard_prefix fs d s" by simp
    from ByHash_next_prefix[OF D0 L0 DL a d b] show ?thesis
      unfolding shard_key_def .
  qed
  from d have dL: "(d + 1) * ?L \<le> 40"
  proof -
    from d have "(d + 1) * ?L \<le> nat (sharding_depth fs) * ?L"
      by (intro mult_le_mono1) simp
    with DL show ?thesis by simp
  qed
  \<comment> \<open>what a group holds\<close>
  have grp: "vs \<noteq> [] \<and> (\<forall>v\<in>set vs. v \<in> set swhids \<and> hash_part fs d v = sub)
             \<and> CHR ''/'' \<notin> set sub \<and> length sub = ?L"
    if "(sub, vs) \<in> set ?g" for sub vs
  proof -
    from G(3) that have ne: "vs \<noteq> []"
      and mem: "\<forall>v\<in>set vs. shard_key fs pfx v = sub \<and> v \<in> set swhids"
      by auto
    then have parts: "\<forall>v\<in>set vs. v \<in> set swhids \<and> hash_part fs d v = sub"
      using key by auto
    from ne obtain v where v: "v \<in> set vs" by (cases vs) auto
    with parts have vs: "v \<in> set swhids" and sub: "sub = hash_part fs d v" by auto
    from vs dg have dv: "is_digest (object_id v)" by blast
    from hash_part_no_slash[OF dv] length_hash_part[OF dv dL] ne parts show ?thesis
      unfolding sub by simp
  qed
  \<comment> \<open>the recursive calls\<close>
  have rec: "\<exists>children sets.
        ByHash_fill_direntry_cache fuel fs sub RDONLY_DIR hs (pfx @ sub @ ''/'') vs
          = Some (children, sets @ [(shard_child hs pfx sub, children)])
        \<and> node_result fs fuel (Suc d) hs (shard_child hs pfx sub) vs children sets"
    if "(sub, vs) \<in> set ?g" for sub vs
  proof -
    note g = grp[OF that]
    have a: "\<forall>s\<in>set vs. is_digest (object_id s)" using g dg by blast
    have "filter (\<lambda>x. x = CHR ''/'') sub = []" using g by (auto simp: filter_empty_conv)
    then have b: "count_char CHR ''/'' (pfx @ sub @ ''/'') = Suc d"
      using cnt by (simp add: count_char_def)
    have c: "\<forall>s\<in>set vs. shard_prefix fs (Suc d) s = pfx @ sub @ ''/''"
      using g sp by (simp add: shard_prefix_Suc)
    from IH[OF a b c, of sub RDONLY_DIR] show ?thesis
      by (simp add: shard_child_def)
  qed
  define res where "res p = (SOME r.
        ByHash_fill_direntry_cache fuel fs (fst p) RDONLY_DIR hs (pfx @ fst p @ ''/'') (snd p)
          = Some (fst r, snd r @ [(shard_child hs pfx (fst p), fst r)])
        \<and> node_result fs fuel (Suc d) hs (shard_child hs pfx (fst p)) (snd p) (fst r) (snd r))"
    for p
  have res: "ByHash_fill_direntry_cache fuel fs (fst p) RDONLY_DIR hs (pfx @ fst p @ ''/'') (snd p)
          = Some (fst (res p), snd (res p) @ [(shard_child hs pfx (fst p), fst (res p))])
        \<and> node_result fs fuel (Suc d) hs (shard_child hs pfx (fst p)) (snd p)
              (fst (res p)) (snd (res p))"
    if "p \<in> set ?g" for p
  proof -
    from that have "(fst p, snd p) \<in> set ?g" by simp
    from rec[OF this] obtain c s where
      "ByHash_fill_direntry_cache fuel fs (fst p) RDONLY_DIR hs (pfx @ fst p @ ''/'') (snd p)
          = Some (fst (c, s), snd (c, s) @ [(shard_child hs pfx (fst p), fst (c, s))])
        \<and> node_result fs fuel (Suc d) hs (shard_child hs pfx (fst p)) (snd p) (fst (c, s)) (snd (c, s))"
      by auto
    then show ?thesis unfolding res_def by (rule someI)
  qed
  let ?B = "\<lambda>p. snd (res p) @ [(shard_child hs pfx (fst p), fst (res p))]"
  let ?H = "\<lambda>p. (shard_child hs pfx (fst p), ?B p)"
  let ?children = "map (\<lambda>p. shard_child hs pfx (fst p)) ?g"
  let ?sets = "concat (map ?B ?g)"
  have "\<forall>p\<in>set ?g. (\<lambda>(subdir, subentries).
                     map_option (\<lambda>(_, sets). (shard_child hs pfx subdir, sets))
                       (ByHash_fill_direntry_cache fuel fs subdir RDONLY_DIR hs
                          (pfx @ subdir @ ''/'') subentries)) p = Some (?H p)"
    using res by (auto simp: case_prod_beta)
  then have those: "those (map (\<lambda>(subdir, subentries).
                     map_option (\<lambda>(_, sets). (shard_child hs pfx subdir, sets))
                       (ByHash_fill_direntry_cache fuel fs subdir RDONLY_DIR hs
                          (pfx @ subdir @ ''/'') subentries)) ?g) = Some (map ?H ?g)"
    by (rule those_map_Some)
  from d D0 cnt have "int (count_char CHR ''/'' pfx) \<noteq> sharding_depth fs" by auto
  from fill_inner_unfold[OF this, of fuel nm md hs swhids]
  have fill: "ByHash_fill_direntry_cache (Suc fuel) fs nm md hs pfx swhids
              = Some (?children, ?sets @ [(?self, ?children)])"
    unfolding those by (simp add: comp_def)
  \<comment> \<open>the keys of the cache entries below this node\<close>
  have block_keys: "\<exists>nm' pfx'. k = RevisionHistoryShardByHash nm' RDONLY_DIR hs pfx'
          \<and> length (pfx @ fst p @ ''/'') \<le> length pfx'
          \<and> take (length (pfx @ fst p @ ''/'')) pfx' = pfx @ fst p @ ''/''"
    if p: "p \<in> set ?g" and k: "k \<in> fst ` set (?B p)" for p k
  proof (cases "k = shard_child hs pfx (fst p)")
    case True
    then show ?thesis by (simp add: shard_child_def)
  next
    case False
    with k have "k \<in> fst ` set (snd (res p))" by auto
    with res[OF p] show ?thesis
      unfolding node_result_def by (fastforce simp: shard_child_def)
  qed
  have keys: "\<forall>k\<in>fst ` set ?sets. \<exists>nm' pfx'. k = RevisionHistoryShardByHash nm' RDONLY_DIR hs pfx'
          \<and> length (entry_prefix ?self) < length pfx'
          \<and> take (length (entry_prefix ?self)) pfx' = entry_prefix ?self"
  proof
    fix k assume "k \<in> fst ` set ?sets"
    then obtain p where p: "p \<in> set ?g" and k: "k \<in> fst ` set (?B p)" by auto
    from block_keys[OF p k] obtain nm' pfx' where
      k': "k = RevisionHistoryShardByHash nm' RDONLY_DIR hs pfx'"
      and le: "length (pfx @ fst p @ ''/'') \<le> length pfx'"
      and tk: "take (length (pfx @ fst p @ ''/'')) pfx' = pfx @ fst p @ ''/''"
      by blast
    from tk have "take (length pfx) (take (length (pfx @ fst p @ ''/'')) pfx') = pfx" by simp
    then have "take (length pfx) pfx' = pfx" by (simp add: min_def)
    with k' le show "\<exists>nm' pfx'. k = RevisionHistoryShardByHash nm' RDONLY_DIR hs pfx'
          \<and> length (entry_prefix ?self) < length pfx'
          \<and> take (length (entry_prefix ?self)) pfx' = entry_prefix ?self"
      by simp
  qed
  have distinct: "distinct (map fst ?sets)"
  proof -
    let ?t = "\<lambda>p. pfx @ fst p @ ''/''"
    let ?tag = "\<lambda>k. take (length pfx + ?L + 1) (entry_prefix k)"
    have m: "map ?t ?g = map (\<lambda>s. pfx @ s @ ''/'') (map fst ?g)" by simp
    have "inj_on (\<lambda>s. pfx @ s @ ''/'') (set (map fst ?g))" by (auto simp: inj_on_def)
    with G(1) have "distinct (map (\<lambda>s. pfx @ s @ ''/'') (map fst ?g))"
      by (simp only: distinct_map)
    then have dt: "distinct (map ?t ?g)" unfolding m .
    have blocks: "\<forall>p\<in>set ?g. distinct (map fst (?B p)) \<and> (\<forall>y\<in>set (map fst (?B p)). ?tag y = ?t p)"
    proof
      fix p assume p: "p \<in> set ?g"
      then have "(fst p, snd p) \<in> set ?g" by simp
      from grp[OF this] have len: "length (fst p) = ?L" by simp
      from res[OF p] have dsub: "distinct (map fst (snd (res p)))"
        and longer: "\<forall>k\<in>fst ` set (snd (res p)). \<exists>nm' pfx'.
              k = RevisionHistoryShardByHash nm' RDONLY_DIR hs pfx'
              \<and> length (pfx @ fst p @ ''/'') < length pfx'"
        unfolding node_result_def by (auto simp: shard_child_def)
      have "shard_child hs pfx (fst p) \<notin> fst ` set (snd (res p))"
      proof
        assume "shard_child hs pfx (fst p) \<in> fst ` set (snd (res p))"
        with longer obtain nm' pfx' where
          "shard_child hs pfx (fst p) = RevisionHistoryShardByHash nm' RDONLY_DIR hs pfx'"
          "length (pfx @ fst p @ ''/'') < length pfx'"
          by blast
        then show False by (auto simp: shard_child_def)
      qed
      with dsub have d1: "distinct (map fst (?B p))" by simp
      have d2: "\<forall>y\<in>set (map fst (?B p)). ?tag y = ?t p"
      proof
        fix y assume "y \<in> set (map fst (?B p))"
        then have "y \<in> fst ` set (?B p)" by simp
        from block_keys[OF p this] obtain nm' pfx' where
          y: "y = RevisionHistoryShardByHash nm' RDONLY_DIR hs pfx'"
          and tk: "take (length (pfx @ fst p @ ''/'')) pfx' = pfx @ fst p @ ''/''"
          by blast
        have "length (pfx @ fst p @ ''/'') = length pfx + ?L + 1" using len by simp
        with tk y show "?tag y = ?t p" by simp
      qed
      from d1 d2 show "distinct (map fst (?B p)) \<and> (\<forall>y\<in>set (map fst (?B p)). ?tag y = ?t p)" ..
    qed
    have "distinct (concat (map (\<lambda>p. map fst (?B p)) ?g))"
      using dt blocks by (rule distinct_concat_tagged)
    moreover have "map fst ?sets = concat (map (\<lambda>p. map fst (?B p)) ?g)"
      by (simp add: map_concat comp_def)
    ultimately show ?thesis by simp
  qed
  \<comment> \<open>listing through the cache\<close>
  have walk: "\<exists>ls. ByHash_walk (Suc fuel) C anc ?self = Some ls
               \<and> mset (leaf_names ls)
                   = mset (map (\<lambda>s. (anc @ drop d (hash_parts fs s), str_swhid s)) swhids)
               \<and> list_all (\<lambda>(a, e). is_symlink e) ls"
    if hold: "holds_sets C (?sets @ [(?self, ?children)])" for C anc
  proof -
    let ?phi = "\<lambda>s. (anc @ drop d (hash_parts fs s), str_swhid s)"
    from hold have cself: "C ?self = Some ?children"
      and hsets: "\<forall>p\<in>set ?g. holds_sets C (?B p)"
      by (simp_all add: holds_sets_append holds_sets_concat) (simp add: holds_sets_def)
    have sub: "\<exists>ls. ByHash_walk fuel C (anc @ [fst p]) (shard_child hs pfx (fst p)) = Some ls
               \<and> mset (leaf_names ls) = mset (map ?phi (snd p))
               \<and> list_all (\<lambda>(a, e). is_symlink e) ls"
      if p: "p \<in> set ?g" for p
    proof -
      from res[OF p] hsets p obtain ls where
        w: "ByHash_walk fuel C (anc @ [fst p]) (shard_child hs pfx (fst p)) = Some ls"
        and m: "mset (leaf_names ls)
                = mset (map (\<lambda>s. ((anc @ [fst p]) @ drop (Suc d) (hash_parts fs s), str_swhid s)) (snd p))"
        and s: "list_all (\<lambda>(a, e). is_symlink e) ls"
        unfolding node_result_def by blast
      from p have "(fst p, snd p) \<in> set ?g" by simp
      from grp[OF this] have parts: "\<forall>v\<in>set (snd p). hash_part fs d v = fst p" by simp
      have eq: "map (\<lambda>s. ((anc @ [fst p]) @ drop (Suc d) (hash_parts fs s), str_swhid s)) (snd p)
            = map ?phi (snd p)"
      proof (rule map_cong[OF refl])
        fix v assume v: "v \<in> set (snd p)"
        have "drop d (hash_parts fs v) = hash_parts fs v ! d # drop (Suc d) (hash_parts fs v)"
          using d by (simp add: Cons_nth_drop_Suc)
        moreover have "hash_parts fs v ! d = hash_part fs d v"
          using d by (simp add: hash_parts_def)
        ultimately show "((anc @ [fst p]) @ drop (Suc d) (hash_parts fs v), str_swhid v) = ?phi v"
          using parts v by simp
      qed
      from m have "mset (leaf_names ls) = mset (map ?phi (snd p))" unfolding eq .
      with w s show ?thesis by blast
    qed
    define lsf where "lsf p = (SOME ls.
        ByHash_walk fuel C (anc @ [fst p]) (shard_child hs pfx (fst p)) = Some ls
        \<and> mset (leaf_names ls) = mset (map ?phi (snd p))
        \<and> list_all (\<lambda>(a, e). is_symlink e) ls)" for p
    have lsf: "ByHash_walk fuel C (anc @ [fst p]) (shard_child hs pfx (fst p)) = Some (lsf p)
        \<and> mset (leaf_names (lsf p)) = mset (map ?phi (snd p))
        \<and> list_all (\<lambda>(a, e). is_symlink e) (lsf p)"
      if "p \<in> set ?g" for p
      unfolding lsf_def using sub[OF that] by (rule someI_ex)
    have w: "ByHash_walk (Suc fuel) C anc ?self = Some (concat (map lsf ?g))"
      using cself lsf by (intro walk_inner) auto
    have "mset (leaf_names (concat (map lsf ?g))) = mset (concat (map (\<lambda>p. leaf_names (lsf p)) ?g))"
      by (simp add: leaf_names_concat comp_def)
    also have "\<dots> = mset (map ?phi (concat (map snd ?g)))"
      using lsf by (intro mset_concat_map) auto
    also have "\<dots> = image_mset ?phi (mset (concat (map snd ?g)))" by simp
    also have "\<dots> = mset (map ?phi swhids)" unfolding G(2) by simp
    finally have m: "mset (leaf_names (concat (map lsf ?g))) = mset (map ?phi swhids)" .
    have s: "list_all (\<lambda>(a, e). is_symlink e) (concat (map lsf ?g))"
      using lsf by (auto simp: list_all_iff)
    from w m s show ?thesis by blast
  qed
  from keys distinct walk have "node_result fs (Suc fuel) d hs ?self swhids ?children ?sets"
    unfolding node_result_def by blast
  with fill show ?thesis by blast
qed

lemma ByHash_fill_main:
  assumes ok: "sharding_ok fs"
  shows "\<lbrakk>\<forall>s\<in>set swhids. is_digest (object_id s); d \<le> nat (sharding_depth fs);
          count_char CHR ''/'' pfx = d; \<forall>s\<in>set swhids. shard_prefix fs d s = pfx;
          nat (sharding_depth fs) - d < fuel\<rbrakk>
     \<Longrightarrow> \<exists>children sets.
           ByHash_fill_direntry_cache fuel fs nm md hs pfx swhids
             = Some (children, sets @ [(RevisionHistoryShardByHash nm md hs pfx, children)])
           \<and> node_result fs fuel d hs (RevisionHistoryShardByHash nm md hs pfx)
                 swhids children sets"
proof (induction fuel arbitrary: d nm md pfx swhids)
  case 0
  then show ?case by simp
next
  case (Suc fuel)
  show ?case
  proof (cases "d = nat (sharding_depth fs)")
    case True
    from ok have "0 \<le> sharding_depth fs" by (simp add: sharding_ok_def)
    with True Suc.prems(3) have "int (count_char CHR ''/'' pfx) = sharding_depth fs" by simp
    from fill_leaves[OF this, of fuel nm md hs swhids]
      node_result_leaves[OF True, where fuel = fuel and hs = hs
        and self = "RevisionHistoryShardByHash nm md hs pfx" and swhids = swhids]
    show ?thesis by (intro exI[of _ "[]"] exI) simp
  next
    case False
    with Suc.prems(2) have d: "d < nat (sharding_depth fs)" by simp
    have IH: "\<exists>children sets.
              ByHash_fill_direntry_cache fuel fs nm' md' hs pfx' swhids'
                = Some (children, sets @ [(RevisionHistoryShardByHash nm' md' hs pfx', children)])
              \<and> node_result fs fuel (Suc d) hs (RevisionHistoryShardByHash nm' md' hs pfx')
                    swhids' children sets"
      if "\<forall>s\<in>set swhids'. is_digest (object_id s)" "count_char CHR ''/'' pfx' = Suc d"
         "\<forall>s\<in>set swhids'. shard_prefix fs (Suc d) s = pfx'"
      for nm' md' pfx' swhids'
    proof -
      from d have a: "Suc d \<le> nat (sharding_depth fs)" by simp
      from Suc.prems(5) d have b: "nat (sharding_depth fs) - Suc d < fuel" by simp
      from Suc.IH[OF that(1) a that(2) that(3) b] show ?thesis .
    qed
    from fill_inner[OF ok Suc.prems(1) d Suc.prems(3) Suc.prems(4) IH] show ?thesis by blast
  qed
qed

lemma run_events_yields: "run_events (evs @ map Yield ys) cache = run_events evs cache"
proof -
  have "foldl (\<lambda>c ev. case ev of Set_direntry node children \<Rightarrow> c(node \<mapsto> children)
                        | Yield _ \<Rightarrow> c) c (map Yield ys) = c" for c
    by (induction ys arbitrary: c) simp_all
  then show ?thesis by (simp add: run_events_def)
qed

lemma run_events_snoc_set:
  "run_events (evs @ [Set_direntry k v]) cache = (run_events evs cache)(k \<mapsto> v)"
  by (simp add: run_events_def)

lemma holds_sets_run_events:
  assumes "distinct (map fst sets)"
  shows "holds_sets (run_events (map (\<lambda>(node, children). Set_direntry node children) sets) cache) sets"
  using assms
proof (induction sets rule: rev_induct)
  case Nil
  then show ?case by (simp add: holds_sets_def)
next
  case (snoc x xs)
  obtain k v where x: "x = (k, v)" by (cases x)
  from snoc.prems have dx: "distinct (map fst xs)" and k: "k \<notin> fst ` set xs"
    by (simp_all add: x)
  let ?C = "run_events (map (\<lambda>(node, children). Set_direntry node children) xs) cache"
  have run: "run_events (map (\<lambda>(node, children). Set_direntry node children) (xs @ [x])) cache
             = ?C(k \<mapsto> v)"
    by (simp add: x run_events_snoc_set)
  from snoc.IH[OF dx] have "holds_sets ?C xs" .
  have "(?C(k \<mapsto> v)) a = Some b" if "(a, b) \<in> set xs" for a b
  proof -
    from that k have "a \<noteq> k" by force
    moreover from \<open>holds_sets ?C xs\<close> that have "?C a = Some b"
      by (auto simp: holds_sets_def list_all_iff)
    ultimately show ?thesis by simp
  qed
  then have "holds_sets (?C(k \<mapsto> v)) xs"
    by (auto simp: holds_sets_def list_all_iff)
  then show ?case unfolding run by (simp add: holds_sets_def x)
qed

lemma yielded_sets_yields:
  "yielded (map (\<lambda>(node, children). Set_direntry node children) sets @ map Yield ys) = ys"
proof -
  have "concat (map (\<lambda>ev. case ev of Yield e \<Rightarrow> [e] | _ \<Rightarrow> [])
          (map (\<lambda>(node, children). Set_direntry node children) sets)) = []"
    by (induction sets) auto
  moreover have "concat (map (\<lambda>ev. case ev of Yield e \<Rightarrow> [e] | _ \<Rightarrow> []) (map Yield ys)) = ys"
    by (induction ys) auto
  ultimately show ?thesis by (simp add: yielded_def)
qed

lemma object_type_tag_inj: "object_type_tag a = object_type_tag b \<Longrightarrow> a = b"
  by (cases a; cases b) simp_all

lemma length_object_type_tag [simp]: "length (object_type_tag t) = 3"
  by (cases t) simp_all

lemma str_swhid_inj: "str_swhid a = str_swhid b \<Longrightarrow> a = b"
proof -
  assume "str_swhid a = str_swhid b"
  then have "object_type_tag (object_type a) @ '':'' @ object_id a
             = object_type_tag (object_type b) @ '':'' @ object_id b"
    by (simp add: str_swhid_def)
  then have "object_type_tag (object_type a) = object_type_tag (object_type b)
             \<and> object_id a = object_id b"
    by (simp add: append_eq_append_conv)
  then show ?thesis by (auto dest: object_type_tag_inj intro: SWHID.expand)
qed

lemma concat_hash_parts:
  "concat (hash_parts fs s)
   = take (nat (sharding_depth fs) * nat (sharding_length fs)) (object_id s)"
  unfolding hash_parts_def hash_part_def by (rule concat_pages)

lemma ByHash_root_ok:
  assumes ok: "sharding_ok fs"
    and dg: "\<forall>s\<in>set history. is_digest (object_id s)"
    and fuel: "nat (sharding_depth fs) < fuel"
  shows "\<exists>children sets.
           ByHash_fill_direntry_cache fuel fs nm md hs [] history
             = Some (children, sets @ [(RevisionHistoryShardByHash nm md hs [], children)])
           \<and> node_result fs fuel 0 hs (RevisionHistoryShardByHash nm md hs []) history children sets"
proof -
  have a: "(0::nat) \<le> nat (sharding_depth fs)" by simp
  have b: "count_char CHR ''/'' [] = 0" by (simp add: count_char_def)
  have c: "\<forall>s\<in>set history. shard_prefix fs 0 s = []" by (simp add: shard_prefix_def)
  from fuel have d: "nat (sharding_depth fs) - 0 < fuel" by simp
  from ByHash_fill_main[OF ok dg a b c d] show ?thesis .
qed

lemma ex_by_hash_walk:
  "(case ByHash_compute_entries 2 ex_fuse2
              (RevisionHistoryShardByHash ''by-hash'' RDONLY_DIR ex_revision []) of
         Some (evs, None) \<Rightarrow>
           map_option (map (\<lambda>(anc, e). (anc, entry_name e)))
             (ByHash_walk 2 (run_events evs Map.empty) []
                (RevisionHistoryShardByHash ''by-hash'' RDONLY_DIR ex_revision []))
       | _ \<Rightarrow> None)
      = Some [([''d0''], ''swh:1:rev:d012a7190fc1fd72ed48911e77ca97ba4521bccd''),
              ([''a1''], ''swh:1:rev:a1b2c3d4e5f60718293a4b5c6d7e8f9001122334''),
              ([''a1''], ''swh:1:rev:a1f0e9d8c7b6a5948372615049382716a5b4c3d2'')]"
  by code_simp

text \<open>
  C2, as stated, for every depth D \<open>\<ge>\<close> 0 and every length L: it fails when D \<open>*\<close> L
  exceeds the 40 characters of a digest. With D = 2 and L = 40 the name of a member is
  \<^verbatim>\<open>digest/swh:1:rev:digest\<close> (the empty second part is dropped from the path), the root
  cuts its first 40 characters and the node below it the next 40, which are the start
  of the identifier: the leaf lies under the directories \<^verbatim>\<open>d012...bccd\<close> and
  \<^verbatim>\<open>swh:1:rev:d012a7190fc1fd72ed48911e77ca97\<close>, whose names together are not the first
  D \<open>*\<close> L characters of the digest.
\<close>

theorem ByHash_leaves_counterexample:
  "sharding_depth ex_fuse_wide = 2 \<and> sharding_length ex_fuse_wide = 40
   \<and> get_history ex_fuse_wide ex_revision = Inr [ex_revision]
   \<and> object_id ex_revision = ''d012a7190fc1fd72ed48911e77ca97ba4521bccd''
   \<and> (case ByHash_compute_entries 3 ex_fuse_wide
              (RevisionHistoryShardByHash ''by-hash'' RDONLY_DIR ex_revision []) of
         Some (evs, None) \<Rightarrow>
           map_option (map (\<lambda>(anc, e). (anc, entry_name e)))
             (ByHash_walk 3 (run_events evs Map.empty) []
                (RevisionHistoryShardByHash ''by-hash'' RDONLY_DIR ex_revision []))
       | _ \<Rightarrow> None)
      = Some [([''d012a7190fc1fd72ed48911e77ca97ba4521bccd'',
                ''swh:1:rev:d012a7190fc1fd72ed48911e77ca97''],
               ''swh:1:rev:d012a7190fc1fd72ed48911e77ca97ba4521bccd'')]
   \<and> concat [''d012a7190fc1fd72ed48911e77ca97ba4521bccd'',
              ''swh:1:rev:d012a7190fc1fd72ed48911e77ca97'']
       \<noteq> take (2 * 40) ''d012a7190fc1fd72ed48911e77ca97ba4521bccd''"
  by code_simp

text \<open>
  C2, amended: for a history of N distinct identifiers whose digests are 40 hexadecimal
  digits, a depth D \<open>\<ge>\<close> 0 and a length L \<open>\<ge>\<close> 0 with D \<open>*\<close> L \<open>\<le>\<close> 40, listing the by-hash
  root returns (the bound on the depth being more than D) and fills the cache so that
  the recursive listing from the root finds exactly N leaves, with no name twice; each
  leaf is a symlink named by the identifier of a member of the history, it lies under D
  directories and their names together are the first D \<open>*\<close> L characters of the member's
  digest; every member has its leaf; and with D = 0 the children of the root are the N
  symlinks themselves, in the order of the history.
\<close>

theorem ByHash_leaves:
  assumes D: "0 \<le> sharding_depth fs" and L: "0 \<le> sharding_length fs"
    and DL: "sharding_depth fs * sharding_length fs \<le> 40"
    and hist: "get_history fs hs = Inr history"
    and dg: "\<forall>s\<in>set history. is_digest (object_id s)"
    and dist: "distinct history"
    and fuel: "nat (sharding_depth fs) < fuel"
  shows "\<exists>evs ls.
      ByHash_compute_entries fuel fs (RevisionHistoryShardByHash nm md hs []) = Some (evs, None)
    \<and> ByHash_walk fuel (run_events evs cache) [] (RevisionHistoryShardByHash nm md hs []) = Some ls
    \<and> length ls = length history
    \<and> distinct (map (\<lambda>(anc, e). entry_name e) ls)
    \<and> (\<forall>(anc, e)\<in>set ls. is_symlink e
          \<and> (\<exists>s\<in>set history. entry_name e = str_swhid s
                \<and> length anc = nat (sharding_depth fs)
                \<and> concat anc = take (nat (sharding_depth fs * sharding_length fs)) (object_id s)))
    \<and> (\<forall>s\<in>set history. \<exists>(anc, e)\<in>set ls. entry_name e = str_swhid s)
    \<and> (sharding_depth fs = 0 \<longrightarrow>
          yielded evs = map (\<lambda>s. FuseSymlinkEntry (str_swhid s)
                          (Path_str [get_relative_root_path fs (RevisionHistoryShardByHash nm md hs []),
                             ''archive/'' @ str_swhid s])) history)"
proof -
  let ?self = "RevisionHistoryShardByHash nm md hs []"
  let ?phi = "\<lambda>s. ([] @ drop 0 (hash_parts fs s), str_swhid s)"
  have nm: "nat (sharding_depth fs * sharding_length fs)
            = nat (sharding_depth fs) * nat (sharding_length fs)"
    using D by (simp add: nat_mult_distrib)
  from D L DL have ok: "sharding_ok fs"
    unfolding sharding_ok_def nm[symmetric] by simp
  from ByHash_root_ok[OF ok dg fuel, of nm md hs] obtain children sets where
    fill: "ByHash_fill_direntry_cache fuel fs nm md hs [] history
             = Some (children, sets @ [(?self, children)])"
    and nr: "node_result fs fuel 0 hs ?self history children sets"
    by blast
  let ?all = "sets @ [(?self, children)]"
  let ?evs = "map (\<lambda>(node, children). Set_direntry node children) ?all @ map Yield children"
  have filt: "filter (\<lambda>s. startswith (object_id s) []) history = history"
    by (simp add: startswith_def)
  have comp: "ByHash_compute_entries fuel fs ?self = Some (?evs, None)"
    unfolding ByHash_compute_entries_def using hist fill
    by (simp add: Let_def filt del: map_append)
  from nr have keys: "\<forall>k\<in>fst ` set sets. \<exists>nm' pfx'. k = RevisionHistoryShardByHash nm' RDONLY_DIR hs pfx'
          \<and> length (entry_prefix ?self) < length pfx'"
    and dsets: "distinct (map fst sets)"
    unfolding node_result_def by blast+
  have "?self \<notin> fst ` set sets"
  proof
    assume "?self \<in> fst ` set sets"
    with keys obtain nm' pfx' where "?self = RevisionHistoryShardByHash nm' RDONLY_DIR hs pfx'"
      "length (entry_prefix ?self) < length pfx'" by blast
    then show False by auto
  qed
  with dsets have dall: "distinct (map fst ?all)" by simp
  have hold: "holds_sets (run_events ?evs cache) ?all"
    unfolding run_events_yields by (rule holds_sets_run_events[OF dall])
  with nr obtain ls where
    walk: "ByHash_walk fuel (run_events ?evs cache) [] ?self = Some ls"
    and m: "mset (leaf_names ls) = mset (map ?phi history)"
    and sym: "list_all (\<lambda>(a, e). is_symlink e) ls"
    unfolding node_result_def by blast
  from m have m': "mset (leaf_names ls) = mset (map (\<lambda>s. (hash_parts fs s, str_swhid s)) history)"
    by simp
  from arg_cong[OF m', of size] have len: "length ls = length history"
    by (simp add: leaf_names_def)
  have names: "map (\<lambda>(anc, e). entry_name e) ls = map snd (leaf_names ls)"
    by (simp add: leaf_names_def case_prod_beta)
  have "mset (map snd (leaf_names ls)) = mset (map snd (map (\<lambda>s. (hash_parts fs s, str_swhid s)) history))"
    using arg_cong[OF m', of "image_mset snd"] by (simp only: mset_map)
  then have "mset (map snd (leaf_names ls)) = mset (map str_swhid history)"
    by (simp add: comp_def)
  moreover have "distinct (map str_swhid history)"
    using dist by (simp add: distinct_map inj_on_def str_swhid_inj)
  ultimately have dn: "distinct (map (\<lambda>(anc, e). entry_name e) ls)"
    unfolding names by (metis mset_eq_imp_distinct_iff)
  from arg_cong[OF m', of set_mset]
  have sets: "set (leaf_names ls) = (\<lambda>s. (hash_parts fs s, str_swhid s)) ` set history"
    by simp
  have each: "\<forall>(anc, e)\<in>set ls. is_symlink e
          \<and> (\<exists>s\<in>set history. entry_name e = str_swhid s
                \<and> length anc = nat (sharding_depth fs)
                \<and> concat anc = take (nat (sharding_depth fs * sharding_length fs)) (object_id s))"
  proof (clarify, rule conjI)
    fix anc e assume ae: "(anc, e) \<in> set ls"
    with sym show "is_symlink e" by (auto simp: list_all_iff)
    from ae have "(anc, entry_name e) \<in> set (leaf_names ls)"
      by (force simp: leaf_names_def)
    with sets obtain s where s: "s \<in> set history" "anc = hash_parts fs s" "entry_name e = str_swhid s"
      by auto
    then show "\<exists>s\<in>set history. entry_name e = str_swhid s
                \<and> length anc = nat (sharding_depth fs)
                \<and> concat anc = take (nat (sharding_depth fs * sharding_length fs)) (object_id s)"
      unfolding nm by (intro bexI[of _ s]) (simp_all add: concat_hash_parts)
  qed
  have cover: "\<forall>s\<in>set history. \<exists>(anc, e)\<in>set ls. entry_name e = str_swhid s"
  proof
    fix s assume "s \<in> set history"
    with sets have "(hash_parts fs s, str_swhid s) \<in> set (leaf_names ls)" by blast
    then show "\<exists>(anc, e)\<in>set ls. entry_name e = str_swhid s"
      by (force simp: leaf_names_def)
  qed
  have flat: "yielded ?evs = map (\<lambda>s. FuseSymlinkEntry (str_swhid s)
                          (Path_str [get_relative_root_path fs ?self,
                             ''archive/'' @ str_swhid s])) history"
    if "sharding_depth fs = 0"
  proof -
    from fuel obtain k where k: "fuel = Suc k" by (cases fuel) auto
    from that have "int (count_char CHR ''/'' []) = sharding_depth fs"
      by (simp add: count_char_def)
    from fill_leaves[OF this, of k nm md hs history] fill
    have "children = map (leaf_entry fs ?self) history" unfolding k by simp
    then show ?thesis
      unfolding yielded_sets_yields by (simp add: leaf_entry_def)
  qed
  from comp walk len dn each cover flat show ?thesis by blast
qed

theorem ByHash_leaves_witness:
  "sharding_depth ex_fuse2 = 1 \<and> sharding_length ex_fuse2 = 2
   \<and> get_history ex_fuse2 ex_revision = Inr ex_history
   \<and> list_all (\<lambda>s. is_digest (object_id s)) ex_history
   \<and> distinct ex_history
   \<and> length ex_history = 3
   \<and> (\<exists>evs ls.
        ByHash_compute_entries 2 ex_fuse2
          (RevisionHistoryShardByHash ''by-hash'' RDONLY_DIR ex_revision []) = Some (evs, None)
      \<and> ByHash_walk 2 (run_events evs Map.empty) []
          (RevisionHistoryShardByHash ''by-hash'' RDONLY_DIR ex_revision []) = Some ls
      \<and> length ls = 3
      \<and> distinct (map (\<lambda>(anc, e). entry_name e) ls))"
proof -
  have D: "sharding_depth ex_fuse2 = 1" and L: "sharding_length ex_fuse2 = 2"
    by (simp_all add: ex_fuse2_def ex_fuse_def)
  have h: "get_history ex_fuse2 ex_revision = Inr ex_history"
    by (simp add: ex_fuse2_def)
  have dg: "list_all (\<lambda>s. is_digest (object_id s)) ex_history"
    by code_simp
  have dist: "distinct ex_history"
    by code_simp
  have len: "length ex_history = 3" by (simp add: ex_history_def)
  have a: "0 \<le> sharding_depth ex_fuse2" "0 \<le> sharding_length ex_fuse2"
    "sharding_depth ex_fuse2 * sharding_length ex_fuse2 \<le> 40"
    "nat (sharding_depth ex_fuse2) < 2"
    by (simp_all add: D L)
  from dg have dg': "\<forall>s\<in>set ex_history. is_digest (object_id s)"
    by (simp add: list_all_iff)
  from ByHash_leaves[OF a(1) a(2) a(3) h dg' dist a(4), of "''by-hash''" RDONLY_DIR Map.empty]
  obtain evs ls where
    "ByHash_compute_entries 2 ex_fuse2
          (RevisionHistoryShardByHash ''by-hash'' RDONLY_DIR ex_revision []) = Some (evs, None)"
    "ByHash_walk 2 (run_events evs Map.empty) []
          (RevisionHistoryShardByHash ''by-hash'' RDONLY_DIR ex_revision []) = Some ls"
    "length ls = length ex_history"
    "distinct (map (\<lambda>(anc, e). entry_name e) ls)"
    by (elim exE conjE)
  with len have "\<exists>evs ls.
        ByHash_compute_entries 2 ex_fuse2
          (RevisionHistoryShardByHash ''by-hash'' RDONLY_DIR ex_revision []) = Some (evs, None)
      \<and> ByHash_walk 2 (run_events evs Map.empty) []
          (RevisionHistoryShardByHash ''by-hash'' RDONLY_DIR ex_revision []) = Some ls
      \<and> length ls = 3
      \<and> distinct (map (\<lambda>(anc, e). entry_name e) ls)"
    by auto
  with D L h dg dist len show ?thesis by (intro conjI)
qed

section \<open>Properties of the directory-entry cache\<close>

lemma ByHash_fill_last:
  assumes "ByHash_fill_direntry_cache fuel fs nm md hs pfx swhids = Some (children, sets)"
  shows "\<exists>sets'. sets = sets' @ [(RevisionHistoryShardByHash nm md hs pfx, children)]"
proof (cases fuel)
  case 0
  with assms show ?thesis by simp
next
  case (Suc k)
  show ?thesis
  proof (cases "int (count_char CHR ''/'' pfx) = sharding_depth fs")
    case True
    from assms show ?thesis
      unfolding Suc fill_leaves[OF True] by auto
  next
    case False
    from assms show ?thesis
      unfolding Suc fill_inner_unfold[OF False] by (auto split: option.splits)
  qed
qed

lemma ByPage_fill_last:
  assumes "ByPage_fill_direntry_cache fs self swhids = Inr (pages, sets)"
  shows "\<exists>sets'. sets = sets' @ [(self, pages)]"
  using assms unfolding ByPage_fill_direntry_cache_def
  by (auto split: entry.splits sum.splits option.splits prod.splits simp: Let_def)

lemma take_append_ge:
  "length xs \<le> n \<Longrightarrow> take n (xs @ ys) = xs @ take (n - length xs) ys"
  by simp

lemma drop_append_ge:
  "length xs \<le> n \<Longrightarrow> drop n (xs @ ys) = drop (n - length xs) ys"
  by simp

lemma set_then_yield:
  assumes evs: "evs = map (\<lambda>(node, children). Set_direntry node children)
                        (sets' @ [(self, children)]) @ map Yield children"
    and cut: "evs = pre @ Yield e # post"
  shows "run_events pre cache self = Some (yielded evs) \<and> list_all is_yield post"
proof -
  define S where
    "S = map (\<lambda>(node, children). Set_direntry node children) (sets' @ [(self, children)])"
  have evs': "evs = S @ map Yield children" unfolding evs S_def ..
  have sets: "\<forall>ev\<in>set S. \<not> is_yield ev" unfolding S_def by (auto simp: is_yield_def)
  have y: "yielded evs = children" unfolding evs by (rule yielded_sets_yields)
  have "\<not> length pre < length S"
  proof
    assume lt: "length pre < length S"
    then have "evs ! length pre = S ! length pre" unfolding evs' by (simp add: nth_append)
    moreover have "evs ! length pre = Yield e" unfolding cut by simp
    ultimately have "S ! length pre = Yield e" by simp
    then have "is_yield (S ! length pre)" by (simp only: is_yield_def event.case)
    moreover from lt have "S ! length pre \<in> set S" by (rule nth_mem)
    ultimately show False using sets by blast
  qed
  then have le: "length S \<le> length pre" by simp
  have "pre = take (length pre) evs" unfolding cut by simp
  also have "\<dots> = S @ take (length pre - length S) (map Yield children)"
    unfolding evs' by (rule take_append_ge[OF le])
  also have "\<dots> = S @ map Yield (take (length pre - length S) children)"
    by (simp only: take_map)
  finally have pre: "pre = S @ map Yield (take (length pre - length S) children)" .
  have "run_events pre cache = run_events S cache"
    by (subst pre) (rule run_events_yields)
  also have "\<dots> = (run_events (map (\<lambda>(node, children). Set_direntry node children) sets') cache)
                      (self \<mapsto> children)"
    unfolding S_def by (simp add: run_events_snoc_set)
  finally have r: "run_events pre cache self = Some children" by simp
  have "Yield e # post = drop (length pre) evs" unfolding cut by simp
  also have "\<dots> = drop (length pre - length S) (map Yield children)"
    unfolding evs' by (rule drop_append_ge[OF le])
  finally have "post = tl (drop (length pre - length S) (map Yield children))"
    by (metis list.sel(3))
  then have "set post \<subseteq> set (map Yield children)"
    by (metis list.set_sel(2) set_drop_subset subsetI subset_trans tl_Nil empty_iff empty_set)
  then have "list_all is_yield post"
    by (auto simp: list_all_iff is_yield_def)
  with r y show ?thesis by simp
qed

lemma ByPage_set_before_yield:
  assumes c: "ByPage_compute_entries fs self = (evs, r)" and cut: "evs = pre @ Yield e # post"
  shows "run_events pre cache self = Some (yielded evs) \<and> list_all is_yield post"
proof -
  from cut have ne: "evs \<noteq> []" by simp
  from c ne obtain nm md hs where self: "self = RevisionHistoryShardByPage nm md hs"
    unfolding ByPage_compute_entries_def by (cases self) auto
  from c ne obtain history where h: "get_history fs hs = Inr history"
    unfolding ByPage_compute_entries_def self by (cases "get_history fs hs") auto
  from c ne obtain pages sets where
    f: "ByPage_fill_direntry_cache fs self history = Inr (pages, sets)"
    and evs: "evs = map (\<lambda>(node, children). Set_direntry node children) sets @ map Yield pages"
    unfolding ByPage_compute_entries_def self using h
    by (cases "ByPage_fill_direntry_cache fs (RevisionHistoryShardByPage nm md hs) history") auto
  from ByPage_fill_last[OF f] obtain sets' where "sets = sets' @ [(self, pages)]" by blast
  with evs have "evs = map (\<lambda>(node, children). Set_direntry node children)
                        (sets' @ [(self, pages)]) @ map Yield pages" by simp
  from set_then_yield[OF this cut] show ?thesis .
qed

lemma ByHash_set_before_yield:
  assumes c: "ByHash_compute_entries fuel fs self = Some (evs, r)"
    and cut: "evs = pre @ Yield e # post"
  shows "run_events pre cache self = Some (yielded evs) \<and> list_all is_yield post"
proof -
  from cut have ne: "evs \<noteq> []" by simp
  from c ne obtain nm md hs pfx where self: "self = RevisionHistoryShardByHash nm md hs pfx"
    unfolding ByHash_compute_entries_def by (cases self) auto
  from c ne obtain history where h: "get_history fs hs = Inr history"
    unfolding ByHash_compute_entries_def self by (cases "get_history fs hs") auto
  let ?swhids = "filter (\<lambda>s. startswith (object_id s) (filter (\<lambda>c. c \<noteq> CHR ''/'') pfx)) history"
  from c ne obtain children sets where
    f: "ByHash_fill_direntry_cache fuel fs nm md hs pfx ?swhids = Some (children, sets)"
    and evs: "evs = map (\<lambda>(node, children). Set_direntry node children) sets @ map Yield children"
    unfolding ByHash_compute_entries_def self using h
    by (cases "ByHash_fill_direntry_cache fuel fs nm md hs pfx ?swhids") (auto simp: Let_def)
  from ByHash_fill_last[OF f] obtain sets' where "sets = sets' @ [(self, children)]"
    unfolding self by blast
  with evs have "evs = map (\<lambda>(node, children). Set_direntry node children)
                        (sets' @ [(self, children)]) @ map Yield children" by simp
  from set_then_yield[OF this cut] show ?thesis .
qed

lemma ex_by_page_events:
  "ByPage_compute_entries ex_fuse2 (RevisionHistoryShardByPage ''by-page'' RDONLY_DIR ex_revision)
   = ([Set_direntry (RevisionHistoryShardByPage ''000'' RDONLY_DIR ex_revision)
         [FuseSymlinkEntry ''swh:1:rev:d012a7190fc1fd72ed48911e77ca97ba4521bccd''
            ''../../archive/swh:1:rev:d012a7190fc1fd72ed48911e77ca97ba4521bccd'',
          FuseSymlinkEntry ''swh:1:rev:a1b2c3d4e5f60718293a4b5c6d7e8f9001122334''
            ''../../archive/swh:1:rev:a1b2c3d4e5f60718293a4b5c6d7e8f9001122334'',
          FuseSymlinkEntry ''swh:1:rev:a1f0e9d8c7b6a5948372615049382716a5b4c3d2''
            ''../../archive/swh:1:rev:a1f0e9d8c7b6a5948372615049382716a5b4c3d2''],
       Set_direntry (RevisionHistoryShardByPage ''by-page'' RDONLY_DIR ex_revision)
         [RevisionHistoryShardByPage ''000'' RDONLY_DIR ex_revision]]
      @ Yield (RevisionHistoryShardByPage ''000'' RDONLY_DIR ex_revision) # [],
      None)"
  by code_simp

lemma ex_by_hash_events:
  "ByHash_compute_entries 2 ex_fuse2 (RevisionHistoryShardByHash ''by-hash'' RDONLY_DIR ex_revision [])
   = Some ([Set_direntry (RevisionHistoryShardByHash ''d0'' RDONLY_DIR ex_revision ''d0/'')
              [FuseSymlinkEntry ''swh:1:rev:d012a7190fc1fd72ed48911e77ca97ba4521bccd''
                 ''../../archive/swh:1:rev:d012a7190fc1fd72ed48911e77ca97ba4521bccd''],
            Set_direntry (RevisionHistoryShardByHash ''a1'' RDONLY_DIR ex_revision ''a1/'')
              [FuseSymlinkEntry ''swh:1:rev:a1b2c3d4e5f60718293a4b5c6d7e8f9001122334''
                 ''../../archive/swh:1:rev:a1b2c3d4e5f60718293a4b5c6d7e8f9001122334'',
               FuseSymlinkEntry ''swh:1:rev:a1f0e9d8c7b6a5948372615049382716a5b4c3d2''
                 ''../../archive/swh:1:rev:a1f0e9d8c7b6a5948372615049382716a5b4c3d2''],
            Set_direntry (RevisionHistoryShardByHash ''by-hash'' RDONLY_DIR ex_revision [])
              [RevisionHistoryShardByHash ''d0'' RDONLY_DIR ex_revision ''d0/'',
               RevisionHistoryShardByHash ''a1'' RDONLY_DIR ex_revision ''a1/'']]
           @ Yield (RevisionHistoryShardByHash ''d0'' RDONLY_DIR ex_revision ''d0/'')
             # [Yield (RevisionHistoryShardByHash ''a1'' RDONLY_DIR ex_revision ''a1/'')],
           None)"
  by code_simp

text \<open>
  C9. For every by-page node and every by-hash node, at the moment a child is given to
  the caller (whichever child it is), the directory-entry cache already holds, for the
  node, the complete list of the children that the listing gives, and nothing is stored
  in the cache afterwards: every later event is a \<^verbatim>\<open>yield\<close>.
\<close>

theorem direntry_set_before_yield:
  "(\<forall>evs r pre e post.
       ByPage_compute_entries fs self = (evs, r) \<and> evs = pre @ Yield e # post \<longrightarrow>
         run_events pre cache self = Some (yielded evs) \<and> list_all is_yield post)
   \<and> (\<forall>fuel evs r pre e post.
       ByHash_compute_entries fuel fs self = Some (evs, r) \<and> evs = pre @ Yield e # post \<longrightarrow>
         run_events pre cache self = Some (yielded evs) \<and> list_all is_yield post)"
  using ByPage_set_before_yield ByHash_set_before_yield by blast

theorem direntry_set_before_yield_witness:
  "run_events
     [Set_direntry (RevisionHistoryShardByPage ''000'' RDONLY_DIR ex_revision)
         [FuseSymlinkEntry ''swh:1:rev:d012a7190fc1fd72ed48911e77ca97ba4521bccd''
            ''../../archive/swh:1:rev:d012a7190fc1fd72ed48911e77ca97ba4521bccd'',
          FuseSymlinkEntry ''swh:1:rev:a1b2c3d4e5f60718293a4b5c6d7e8f9001122334''
            ''../../archive/swh:1:rev:a1b2c3d4e5f60718293a4b5c6d7e8f9001122334'',
          FuseSymlinkEntry ''swh:1:rev:a1f0e9d8c7b6a5948372615049382716a5b4c3d2''
            ''../../archive/swh:1:rev:a1f0e9d8c7b6a5948372615049382716a5b4c3d2''],
       Set_direntry (RevisionHistoryShardByPage ''by-page'' RDONLY_DIR ex_revision)
         [RevisionHistoryShardByPage ''000'' RDONLY_DIR ex_revision]]
     Map.empty (RevisionHistoryShardByPage ''by-page'' RDONLY_DIR ex_revision)
   = Some (yielded (fst (ByPage_compute_entries ex_fuse2
              (RevisionHistoryShardByPage ''by-page'' RDONLY_DIR ex_revision))))
   \<and> yielded (fst (ByPage_compute_entries ex_fuse2
              (RevisionHistoryShardByPage ''by-page'' RDONLY_DIR ex_revision)))
     = [RevisionHistoryShardByPage ''000'' RDONLY_DIR ex_revision]
   \<and> run_events
       [Set_direntry (RevisionHistoryShardByHash ''d0'' RDONLY_DIR ex_revision ''d0/'')
              [FuseSymlinkEntry ''swh:1:rev:d012a7190fc1fd72ed48911e77ca97ba4521bccd''
                 ''../../archive/swh:1:rev:d012a7190fc1fd72ed48911e77ca97ba4521bccd''],
            Set_direntry (RevisionHistoryShardByHash ''a1'' RDONLY_DIR ex_revision ''a1/'')
              [FuseSymlinkEntry ''swh:1:rev:a1b2c3d4e5f60718293a4b5c6d7e8f9001122334''
                 ''../../archive/swh:1:rev:a1b2c3d4e5f60718293a4b5c6d7e8f9001122334'',
               FuseSymlinkEntry ''swh:1:rev:a1f0e9d8c7b6a5948372615049382716a5b4c3d2''
                 ''../../archive/swh:1:rev:a1f0e9d8c7b6a5948372615049382716a5b4c3d2''],
            Set_direntry (RevisionHistoryShardByHash ''by-hash'' RDONLY_DIR ex_revision [])
              [RevisionHistoryShardByHash ''d0'' RDONLY_DIR ex_revision ''d0/'',
               RevisionHistoryShardByHash ''a1'' RDONLY_DIR ex_revision ''a1/'']]
       Map.empty (RevisionHistoryShardByHash ''by-hash'' RDONLY_DIR ex_revision [])
     = map_option (yielded \<circ> fst) (ByHash_compute_entries 2 ex_fuse2
          (RevisionHistoryShardByHash ''by-hash'' RDONLY_DIR ex_revision []))
   \<and> map_option (yielded \<circ> fst) (ByHash_compute_entries 2 ex_fuse2
          (RevisionHistoryShardByHash ''by-hash'' RDONLY_DIR ex_revision []))
     = Some [RevisionHistoryShardByHash ''d0'' RDONLY_DIR ex_revision ''d0/'',
             RevisionHistoryShardByHash ''a1'' RDONLY_DIR ex_revision ''a1/'']
   \<and> list_all is_yield [Yield (RevisionHistoryShardByHash ''a1'' RDONLY_DIR ex_revision ''a1/'')]"
proof -
  note T = direntry_set_before_yield
  have p: "run_events
     [Set_direntry (RevisionHistoryShardByPage ''000'' RDONLY_DIR ex_revision)
         [FuseSymlinkEntry ''swh:1:rev:d012a7190fc1fd72ed48911e77ca97ba4521bccd''
            ''../../archive/swh:1:rev:d012a7190fc1fd72ed48911e77ca97ba4521bccd'',
          FuseSymlinkEntry ''swh:1:rev:a1b2c3d4e5f60718293a4b5c6d7e8f9001122334''
            ''../../archive/swh:1:rev:a1b2c3d4e5f60718293a4b5c6d7e8f9001122334'',
          FuseSymlinkEntry ''swh:1:rev:a1f0e9d8c7b6a5948372615049382716a5b4c3d2''
            ''../../archive/swh:1:rev:a1f0e9d8c7b6a5948372615049382716a5b4c3d2''],
       Set_direntry (RevisionHistoryShardByPage ''by-page'' RDONLY_DIR ex_revision)
         [RevisionHistoryShardByPage ''000'' RDONLY_DIR ex_revision]]
     Map.empty (RevisionHistoryShardByPage ''by-page'' RDONLY_DIR ex_revision)
   = Some (yielded (fst (ByPage_compute_entries ex_fuse2
              (RevisionHistoryShardByPage ''by-page'' RDONLY_DIR ex_revision))))"
    using T[of ex_fuse2 "RevisionHistoryShardByPage ''by-page'' RDONLY_DIR ex_revision" Map.empty,
            THEN conjunct1, rule_format, OF conjI, OF ex_by_page_events refl]
    by (simp only: ex_by_page_events fst_conv)
  have h: "run_events
       [Set_direntry (RevisionHistoryShardByHash ''d0'' RDONLY_DIR ex_revision ''d0/'')
              [FuseSymlinkEntry ''swh:1:rev:d012a7190fc1fd72ed48911e77ca97ba4521bccd''
                 ''../../archive/swh:1:rev:d012a7190fc1fd72ed48911e77ca97ba4521bccd''],
            Set_direntry (RevisionHistoryShardByHash ''a1'' RDONLY_DIR ex_revision ''a1/'')
              [FuseSymlinkEntry ''swh:1:rev:a1b2c3d4e5f60718293a4b5c6d7e8f9001122334''
                 ''../../archive/swh:1:rev:a1b2c3d4e5f60718293a4b5c6d7e8f9001122334'',
               FuseSymlinkEntry ''swh:1:rev:a1f0e9d8c7b6a5948372615049382716a5b4c3d2''
                 ''../../archive/swh:1:rev:a1f0e9d8c7b6a5948372615049382716a5b4c3d2''],
            Set_direntry (RevisionHistoryShardByHash ''by-hash'' RDONLY_DIR ex_revision [])
              [RevisionHistoryShardByHash ''d0'' RDONLY_DIR ex_revision ''d0/'',
               RevisionHistoryShardByHash ''a1'' RDONLY_DIR ex_revision ''a1/'']]
       Map.empty (RevisionHistoryShardByHash ''by-hash'' RDONLY_DIR ex_revision [])
     = map_option (yielded \<circ> fst) (ByHash_compute_entries 2 ex_fuse2
          (RevisionHistoryShardByHash ''by-hash'' RDONLY_DIR ex_revision []))"
    and y: "list_all is_yield
       [Yield (RevisionHistoryShardByHash ''a1'' RDONLY_DIR ex_revision ''a1/'')]"
    using T[of ex_fuse2 "RevisionHistoryShardByHash ''by-hash'' RDONLY_DIR ex_revision []" Map.empty,
            THEN conjunct2, rule_format, OF conjI, OF ex_by_hash_events refl]
    by (simp_all only: ex_by_hash_events fst_conv option.map comp_apply)
  have yp: "yielded (fst (ByPage_compute_entries ex_fuse2
              (RevisionHistoryShardByPage ''by-page'' RDONLY_DIR ex_revision)))
     = [RevisionHistoryShardByPage ''000'' RDONLY_DIR ex_revision]"
    unfolding ex_by_page_events by (simp add: yielded_def)
  have yh: "map_option (yielded \<circ> fst) (ByHash_compute_entries 2 ex_fuse2
          (RevisionHistoryShardByHash ''by-hash'' RDONLY_DIR ex_revision []))
     = Some [RevisionHistoryShardByHash ''d0'' RDONLY_DIR ex_revision ''d0/'',
             RevisionHistoryShardByHash ''a1'' RDONLY_DIR ex_revision ''a1/'']"
    unfolding ex_by_hash_events by (simp add: yielded_def)
  from p yp h yh y show ?thesis by (intro conjI)
qed

end
